theory Spec2Isabelle
  imports Main "HOL-Library.Sublist" "HOL-Library.Log_Nat"
begin

section \<open>ProductsLoader: a batching product loader over a spreadsheet backend\<close>

text \<open>
  The development embeds \<^verbatim>\<open>src/actions/common/ProductsLoader.js\<close>. The class wraps a
  \<^verbatim>\<open>DataLoader\<close> around two closures, \<^verbatim>\<open>cacheKeyFunction\<close> and \<^verbatim>\<open>loadingFunction\<close>,
  and the asynchronous method \<^verbatim>\<open>__searchProducts\<close>. JavaScript values that may be
  \<^verbatim>\<open>undefined\<close> are made explicit, every thrown \<^verbatim>\<open>TypeError\<close> is a rejected promise,
  and the calls to the spreadsheet service are recorded in a call log.
\<close>

subsection \<open>JavaScript values\<close>

text \<open>
  A JavaScript number that holds an integer, or \<^verbatim>\<open>NaN\<close>. The numbers of this program
  are page numbers, page sizes, their product and array lengths.
\<close>

datatype jsnumber = NaN | Num int

text \<open>The decimal numeral of an integer, as \<^verbatim>\<open>JSON.stringify\<close> and \<^verbatim>\<open>ToString\<close> print it.\<close>

definition digit :: "nat \<Rightarrow> char" where
  "digit d = char_of (48 + d)"

fun digits :: "nat \<Rightarrow> string" where
  "digits n = (if n < 10 then [digit n] else digits (n div 10) @ [digit (n mod 10)])"

definition show_int :: "int \<Rightarrow> string" where
  "show_int i = (if i < 0 then CHR ''-'' # digits (nat (- i)) else digits (nat i))"

text \<open>
  The primitive values that reach the fields of a product: a spreadsheet cell is a
  string, an index past the end of a row reads \<^verbatim>\<open>undefined\<close>.
\<close>

datatype jsval = JUndefined | JString string | JNumber jsnumber

definition typeof :: "jsval \<Rightarrow> string" where
  "typeof v = (case v of JUndefined \<Rightarrow> ''undefined'' | JString _ \<Rightarrow> ''string''
     | JNumber _ \<Rightarrow> ''number'')"

text \<open>\<^verbatim>\<open>ToString\<close>, as a template literal applies it.\<close>

definition toString :: "jsval \<Rightarrow> string" where
  "toString v = (case v of JUndefined \<Rightarrow> ''undefined'' | JString s \<Rightarrow> s
     | JNumber n \<Rightarrow> (case n of NaN \<Rightarrow> ''NaN'' | Num i \<Rightarrow> show_int i))"

text \<open>An optional property of the key read as a value: absent reads \<^verbatim>\<open>undefined\<close>.\<close>

definition jsv :: "string option \<Rightarrow> jsval" where
  "jsv p = (case p of None \<Rightarrow> JUndefined | Some s \<Rightarrow> JString s)"

text \<open>
  A product of two integers in double precision: the exact product rounded to a
  53-bit significand, ties to even. Products of magnitude below \<open>2 ^ 53\<close> are exact.
  The operands are page numbers and page sizes, whose product is far from the overflow
  of a double.
\<close>

definition round_double :: "int \<Rightarrow> int" where
  "round_double n =
     (let a = \<bar>n\<bar>; e = bitlen a - 53 in
      if e \<le> 0 then n
      else
        let m = 2 ^ nat e; q = a div m; r = a mod m; h = m div 2;
            q' = (if h < r \<or> (r = h \<and> odd q) then q + 1 else q)
        in sgn n * (q' * m))"

text \<open>\<^verbatim>\<open>a * b\<close> where either operand may be \<^verbatim>\<open>undefined\<close>, which converts to \<^verbatim>\<open>NaN\<close>.\<close>

definition js_times :: "int option \<Rightarrow> int option \<Rightarrow> jsnumber" where
  "js_times a b = (case (a, b) of (Some x, Some y) \<Rightarrow> Num (round_double (x * y)) | _ \<Rightarrow> NaN)"

text \<open>\<^verbatim>\<open>haystack.includes(needle)\<close> on strings: a scan for the needle at every position.\<close>

fun str_includes :: "string \<Rightarrow> string \<Rightarrow> bool" where
  "str_includes [] needle = (needle = [])"
| "str_includes (c # cs) needle = (prefix needle (c # cs) \<or> str_includes cs needle)"

subsection \<open>Promises\<close>

text \<open>
  What a promise rejects with: the \<^verbatim>\<open>TypeError\<close> of a read on \<^verbatim>\<open>undefined\<close>, an error
  object of the service with its message, and an error object of the service that
  \<^verbatim>\<open>JSON.stringify\<close> cannot serialise (one that refers to itself, or holds a BigInt).
\<close>

datatype js_error = TypeError | Error string | Unserialisable string

datatype 'a promise = Resolved 'a | Rejected js_error

text \<open>
  \<^verbatim>\<open>JSON.stringify(error, null, 0)\<close>: an error object has no enumerable property of its
  own and prints as an empty object; on a value it cannot serialise the call throws a
  \<^verbatim>\<open>TypeError\<close>.
\<close>

definition json_of_error :: "js_error \<Rightarrow> js_error + string" where
  "json_of_error error =
     (case error of
        TypeError \<Rightarrow> Inr ''{}''
      | Error message \<Rightarrow> Inr ''{}''
      | Unserialisable message \<Rightarrow> Inl TypeError)"

definition serialisable :: "js_error \<Rightarrow> bool" where
  "serialisable error = (case json_of_error error of Inr text \<Rightarrow> True | Inl thrown \<Rightarrow> False)"

text \<open>
  \<^verbatim>\<open>p.catch(handler)\<close>: a rejection is replaced by what the handler returns, and by a
  rejection when the handler throws.
\<close>

definition catch :: "'a promise \<Rightarrow> (js_error \<Rightarrow> 'a promise) \<Rightarrow> 'a promise" where
  "catch p handler = (case p of Resolved v \<Rightarrow> Resolved v | Rejected e \<Rightarrow> handler e)"

subsection \<open>Load keys\<close>

text \<open>
  The key is the argument object of the GraphQL \<^verbatim>\<open>products\<close> field, with the shape the
  documentation of \<^verbatim>\<open>__searchProducts\<close> gives it: \<^verbatim>\<open>search\<close> a string, \<^verbatim>\<open>filter\<close> an
  object with the optional conditions \<^verbatim>\<open>sku\<close> and \<^verbatim>\<open>url_key\<close>, and the integers
  \<^verbatim>\<open>categoryId\<close>, \<^verbatim>\<open>currentPage\<close> and \<^verbatim>\<open>pageSize\<close>; every property may be absent. A
  condition is \<^verbatim>\<open>{eq: s}\<close> or \<^verbatim>\<open>{in: [...]}\<close>. An object is kept as the sequence of
  its properties in insertion order, which is the order \<^verbatim>\<open>JSON.stringify\<close> walks.
\<close>

datatype FilterTypeInput = Eq string | In "string list"

datatype FilterField = Sku FilterTypeInput | Url_key FilterTypeInput

datatype KeyField =
    Search string
  | Filter "FilterField list"
  | CategoryId int
  | CurrentPage int
  | PageSize int

type_synonym LoadKey = "KeyField list"

text \<open>
  Property reads; an absent property is \<open>None\<close>. An object holds a property once, and
  the read takes its first occurrence in the sequence. The read of \<^verbatim>\<open>params.filter\<close> is
  \<open>filter_arg\<close>, and those of \<^verbatim>\<open>.eq\<close> and \<^verbatim>\<open>.in\<close> are \<open>eq_val\<close> and \<open>in_val\<close>.
\<close>

fun search :: "LoadKey \<Rightarrow> string option" where
  "search [] = None"
| "search (Search s # fs) = Some s"
| "search (f # fs) = search fs"

fun filter_arg :: "LoadKey \<Rightarrow> FilterField list option" where
  "filter_arg [] = None"
| "filter_arg (Filter c # fs) = Some c"
| "filter_arg (f # fs) = filter_arg fs"

fun currentPage :: "LoadKey \<Rightarrow> int option" where
  "currentPage [] = None"
| "currentPage (CurrentPage n # fs) = Some n"
| "currentPage (f # fs) = currentPage fs"

fun pageSize :: "LoadKey \<Rightarrow> int option" where
  "pageSize [] = None"
| "pageSize (PageSize n # fs) = Some n"
| "pageSize (f # fs) = pageSize fs"

fun sku :: "FilterField list \<Rightarrow> FilterTypeInput option" where
  "sku [] = None"
| "sku (Sku c # fs) = Some c"
| "sku (f # fs) = sku fs"

fun url_key :: "FilterField list \<Rightarrow> FilterTypeInput option" where
  "url_key [] = None"
| "url_key (Url_key c # fs) = Some c"
| "url_key (f # fs) = url_key fs"

fun eq_val :: "FilterTypeInput \<Rightarrow> string option" where
  "eq_val (Eq s) = Some s"
| "eq_val (In xs) = None"

fun in_val :: "FilterTypeInput \<Rightarrow> string list option" where
  "in_val (Eq s) = None"
| "in_val (In xs) = Some xs"

text \<open>
  Truthiness of an optional string: \<^verbatim>\<open>undefined\<close> and the empty string are falsy.
  Objects and arrays, also empty ones, are truthy.
\<close>

definition truthy :: "string option \<Rightarrow> bool" where
  "truthy p = (case p of None \<Rightarrow> False | Some s \<Rightarrow> s \<noteq> [])"

subsection \<open>The spreadsheet service\<close>

text \<open>
  Modelled from the spec: \<^verbatim>\<open>services/googleSheet.js\<close> (\<^verbatim>\<open>getAuthToken\<close> and
  \<^verbatim>\<open>getSpreadSheetValues\<close>) is not among the sources. The spec gives it two operations,
  the acquisition of a credential and the fetch of a whole range as a sequence of rows,
  each row an ordered sequence of string cells; either may fail. A batch makes at most
  one call of each kind per key, so the outcome of a call is given by the position of
  that key in the batch.
\<close>

datatype credential = Credential string

type_synonym row = "string list"

record fetch_request =
  spreadsheetId :: "string option"
  auth :: credential
  spreadsheetRange :: string

datatype backend_call = AcquireToken | FetchTable fetch_request

record backend =
  getAuthToken :: "nat \<Rightarrow> credential promise"
  getSpreadSheetValues :: "nat \<Rightarrow> fetch_request \<Rightarrow> row list promise"

record action_parameters =
  SPREADSHEET :: "string option"

text \<open>\<^verbatim>\<open>row[i]\<close>: past the end of the array the read is \<^verbatim>\<open>undefined\<close>.\<close>

definition cell :: "row \<Rightarrow> nat \<Rightarrow> jsval" where
  "cell r i = (if i < length r then JString (r ! i) else JUndefined)"

subsection \<open>Search results\<close>

text \<open>
  The objects \<^verbatim>\<open>__searchProducts\<close> builds. The property \<^verbatim>\<open>sku\<close> of a product is the field
  \<open>sku_of\<close>, as \<open>sku\<close> is the read of \<^verbatim>\<open>params.filter.sku\<close>; a field that is read from
  a row or from the key may hold \<^verbatim>\<open>undefined\<close>.
\<close>

record Price =
  currency :: string
  amount :: jsval

record ProductRecord =
  sku_of :: jsval
  title :: jsval
  description :: string
  price :: Price
  image_url :: jsval
  categoryIds :: "int list"

record SearchResult =
  total :: nat
  offset :: jsnumber
  limit :: "int option"
  products :: "ProductRecord list"

text \<open>What a promise of the loader settles with.\<close>

datatype jsresult = Undefined | Null | Result SearchResult

subsection \<open>The resolution of one key\<close>

text \<open>
  \<^verbatim>\<open>values.filter((row) => row[1].includes(params.search))\<close>: the callback throws on
  a row without a second cell.
\<close>

fun filter_title :: "string \<Rightarrow> row list \<Rightarrow> js_error + row list" where
  "filter_title s [] = Inr []"
| "filter_title s (r # rs) =
     (case cell r 1 of
        JString t \<Rightarrow>
          (case filter_title s rs of
             Inl e \<Rightarrow> Inl e
           | Inr ms \<Rightarrow> Inr (if str_includes t s then r # ms else ms))
      | _ \<Rightarrow> Inl TypeError)"

text \<open>
  \<^verbatim>\<open>values.filter((row) => keys.includes(row[0]))\<close>. With \<^verbatim>\<open>keys\<close> undefined the
  callback throws at the first row; on an empty table it is never called.
\<close>

definition filter_member :: "string list option \<Rightarrow> row list \<Rightarrow> js_error + row list" where
  "filter_member keys rs =
     (case keys of
        None \<Rightarrow> (if rs = [] then Inr [] else Inl TypeError)
      | Some ks \<Rightarrow> Inr (filter (\<lambda>r. cell r 0 \<in> JString ` set ks) rs))"

text \<open>
  Lines 112 to 175 of \<^verbatim>\<open>__searchProducts\<close>: the \<^verbatim>\<open>else if\<close> on the filter. Reading a
  property of \<^verbatim>\<open>undefined\<close> throws inside the async function, which rejects its
  promise; falling off the end resolves it with \<^verbatim>\<open>undefined\<close>. The condition of line
  147 reads \<^verbatim>\<open>params.filter.sku.in\<close> with no guard on \<^verbatim>\<open>params.filter.sku\<close>.
\<close>

definition filter_rows :: "LoadKey \<Rightarrow> row list \<Rightarrow> jsresult promise" where
  "filter_rows params values =
     (case filter_arg params of
        None \<Rightarrow> Resolved Undefined
      | Some flt \<Rightarrow>
          if sku flt \<noteq> None \<or> url_key flt \<noteq> None then
            if (case sku flt of None \<Rightarrow> False | Some c \<Rightarrow> truthy (eq_val c))
               \<or> (case url_key flt of None \<Rightarrow> False | Some c \<Rightarrow> truthy (eq_val c))
            then
              (let key = (case sku flt of
                            Some c \<Rightarrow> eq_val c
                          | None \<Rightarrow> (case url_key flt of Some c \<Rightarrow> eq_val c | None \<Rightarrow> None))
               in case find (\<lambda>row. cell row 0 = jsv key) values of
                    None \<Rightarrow> Rejected TypeError
                  | Some product \<Rightarrow>
                      Resolved (Result \<lparr>
                        total = 1,
                        offset = js_times (currentPage params) (pageSize params),
                        limit = pageSize params,
                        products = [\<lparr>
                          sku_of = cell product 0,
                          title = cell product 1,
                          description = ''Description for product '' @ toString (cell product 1),
                          price = \<lparr>currency = ''USD'', amount = cell product 3\<rparr>,
                          image_url = cell product 4,
                          categoryIds = [1, 2]\<rparr>]\<rparr>))
            else
              (case (case sku flt of
                       None \<Rightarrow> Inl TypeError
                     | Some s \<Rightarrow>
                         if in_val s \<noteq> None then Inr True
                         else (case url_key flt of
                                 None \<Rightarrow> Inl TypeError
                               | Some u \<Rightarrow> Inr (in_val u \<noteq> None))) of
                 Inl e \<Rightarrow> Rejected e
               | Inr False \<Rightarrow> Resolved Undefined
               | Inr True \<Rightarrow>
                   (let keys = (case sku flt of
                                  Some s \<Rightarrow> in_val s
                                | None \<Rightarrow> (case url_key flt of Some u \<Rightarrow> in_val u | None \<Rightarrow> None))
                    in case filter_member keys values of
                         Inl e \<Rightarrow> Rejected e
                       | Inr product \<Rightarrow>
                           Resolved (Result \<lparr>
                             total = length product,
                             offset = js_times (currentPage params) (pageSize params),
                             limit = pageSize params,
                             products = map (\<lambda>product. \<lparr>
                                 sku_of = cell product 0,
                                 title = cell product 1,
                                 description =
                                   ''Description for product '' @ toString (cell product 1),
                                 price = \<lparr>currency = ''USD'', amount = cell product 3\<rparr>,
                                 image_url = cell product 4,
                                 categoryIds = [1, 2]\<rparr>) product\<rparr>)))
          else Resolved Undefined)"

text \<open>
  Lines 90 to 111, the branch on \<^verbatim>\<open>params.search\<close>, and the filter branch as its
  \<^verbatim>\<open>else\<close>.
\<close>

definition search_rows :: "LoadKey \<Rightarrow> row list \<Rightarrow> jsresult promise" where
  "search_rows params values =
     (case (if truthy (search params) then search params else None) of
        Some s \<Rightarrow>
          (case filter_title s values of
             Inl e \<Rightarrow> Rejected e
           | Inr product \<Rightarrow>
               Resolved (Result \<lparr>
                 total = length product,
                 offset = js_times (currentPage params) (pageSize params),
                 limit = pageSize params,
                 products = map (\<lambda>product. \<lparr>
                     sku_of = cell product 0,
                     title = cell product 1,
                     description = ''Description for product '' @ toString (cell product 1),
                     price = \<lparr>currency = ''USD'', amount = cell product 3\<rparr>,
                     image_url = cell product 4,
                     categoryIds = [1, 2]\<rparr>) product\<rparr>))
      | None \<Rightarrow> filter_rows params values)"

text \<open>
  \<^verbatim>\<open>__searchProducts(params, actionParameters)\<close> for the key at position \<open>i\<close> of a
  batch: the calls it makes to the service, and the promise it returns. The constructor's
  \<^verbatim>\<open>actionParameters\<close> is optional; line 81 throws when it is absent, before any call.
  A rejected \<^verbatim>\<open>await\<close> rejects the function's promise and skips the rest.
\<close>

definition searchProducts ::
  "backend \<Rightarrow> nat \<Rightarrow> LoadKey \<Rightarrow> action_parameters option \<Rightarrow> backend_call list \<times> jsresult promise"
where
  "searchProducts be i params actionParameters =
     (case actionParameters of
        None \<Rightarrow> ([], Rejected TypeError)
      | Some ap \<Rightarrow>
          (case getAuthToken be i of
             Rejected e \<Rightarrow> ([AcquireToken], Rejected e)
           | Resolved tok \<Rightarrow>
               (let req = \<lparr>spreadsheetId = SPREADSHEET ap, auth = tok,
                          spreadsheetRange = ''weretail-internal!C2:G''\<rparr>
                in case getSpreadSheetValues be i req of
                     Rejected e \<Rightarrow> ([AcquireToken, FetchTable req], Rejected e)
                   | Resolved response \<Rightarrow>
                       ([AcquireToken, FetchTable req], search_rows params response))))"

text \<open>
  The handler of lines 40 to 49: it builds the message for \<^verbatim>\<open>console.error\<close>, which
  evaluates \<^verbatim>\<open>JSON.stringify(error, null, 0)\<close>, and then returns \<^verbatim>\<open>null\<close>. When the
  serialisation throws, the handler throws before it returns. The key is serialised in
  the same message, as \<^verbatim>\<open>cacheKeyFunction\<close> does without failure; the printing itself is
  not modelled.
\<close>

definition catch_handler :: "js_error \<Rightarrow> jsresult promise" where
  "catch_handler error =
     (case json_of_error error of
        Inl thrown \<Rightarrow> Rejected thrown
      | Inr text \<Rightarrow> Resolved Null)"

text \<open>
  \<^verbatim>\<open>loadingFunction(keys)\<close>: every key is resolved by its own call of
  \<^verbatim>\<open>__searchProducts\<close>, with the handler attached by \<^verbatim>\<open>catch\<close>. The result is a
  resolved promise of the array of per-key promises, kept here with the calls each key
  made.
\<close>

definition loadingFunction ::
  "backend \<Rightarrow> action_parameters option \<Rightarrow> LoadKey list
     \<Rightarrow> (backend_call list \<times> jsresult promise) list promise"
where
  "loadingFunction be actionParameters keys =
     Resolved (map (\<lambda>(i, key).
         (case searchProducts be i key actionParameters of
            (calls, p) \<Rightarrow> (calls, catch p catch_handler)))
       (enumerate 0 keys))"

text \<open>The promises handed to the loader, and the calls of the whole batch.\<close>

definition outcomes :: "(backend_call list \<times> jsresult promise) list promise \<Rightarrow> jsresult promise list" where
  "outcomes p = (case p of Resolved xs \<Rightarrow> map snd xs | Rejected e \<Rightarrow> [])"

definition backend_calls :: "(backend_call list \<times> jsresult promise) list promise \<Rightarrow> backend_call list" where
  "backend_calls p = (case p of Resolved xs \<Rightarrow> concat (map fst xs) | Rejected e \<Rightarrow> [])"

subsection \<open>The row-to-record mapping and a sample backend\<close>

text \<open>
  The object literal that \<^verbatim>\<open>__searchProducts\<close> writes at lines 99, 134 and 161, as one
  function of the row.
\<close>

definition record_of_row :: "row \<Rightarrow> ProductRecord" where
  "record_of_row r = \<lparr>
     sku_of = cell r 0,
     title = cell r 1,
     description = ''Description for product '' @ toString (cell r 1),
     price = \<lparr>currency = ''USD'', amount = cell r 3\<rparr>,
     image_url = cell r 4,
     categoryIds = [1, 2]\<rparr>"

text \<open>The two result objects, of one row (line 129) and of a list of rows (lines 94, 156).\<close>

definition single_result :: "LoadKey \<Rightarrow> row \<Rightarrow> SearchResult" where
  "single_result params r = \<lparr>
     total = 1,
     offset = js_times (currentPage params) (pageSize params),
     limit = pageSize params,
     products = [record_of_row r]\<rparr>"

definition list_result :: "LoadKey \<Rightarrow> row list \<Rightarrow> SearchResult" where
  "list_result params rs = \<lparr>
     total = length rs,
     offset = js_times (currentPage params) (pageSize params),
     limit = pageSize params,
     products = map record_of_row rs\<rparr>"

text \<open>The table of the spec's scenarios, behind a service that always answers.\<close>

definition demo_table :: "row list" where
  "demo_table =
     [[''S1'', ''Shirt'', [], ''19.99'', ''img1''], [''S2'', ''Shoe'', [], ''49.99'', ''img2'']]"

definition demo_backend :: backend where
  "demo_backend = \<lparr>getAuthToken = (\<lambda>i. Resolved (Credential ''token'')),
     getSpreadSheetValues = (\<lambda>i req. Resolved demo_table)\<rparr>"



definition demo_parameters :: action_parameters where
  "demo_parameters = \<lparr>SPREADSHEET = Some ''sheet''\<rparr>"

subsection \<open>Cache keys\<close>

text \<open>
  \<^verbatim>\<open>JSON.stringify\<close> of a string: the quotation mark, the backslash and the control
  characters below \<open>0x20\<close> are escaped, every other character is copied.
\<close>

definition hex_digit :: "nat \<Rightarrow> char" where
  "hex_digit d = (if d < 10 then char_of (48 + d) else char_of (87 + d))"

definition escape_char :: "char \<Rightarrow> string" where
  "escape_char c =
     (if c = CHR 0x22 then [CHR 0x5C, CHR 0x22]
      else if c = CHR 0x5C then [CHR 0x5C, CHR 0x5C]
      else if c = CHR 0x08 then [CHR 0x5C, CHR ''b'']
      else if c = CHR 0x0C then [CHR 0x5C, CHR ''f'']
      else if c = CHR 0x0A then [CHR 0x5C, CHR ''n'']
      else if c = CHR 0x0D then [CHR 0x5C, CHR ''r'']
      else if c = CHR 0x09 then [CHR 0x5C, CHR ''t'']
      else if (of_char c :: nat) < 32 then
        [CHR 0x5C, CHR ''u'', CHR ''0'', CHR ''0'',
         hex_digit (of_char c div 16), hex_digit (of_char c mod 16)]
      else [c])"

definition quote :: "string \<Rightarrow> string" where
  "quote s = CHR 0x22 # concat (map escape_char s) @ [CHR 0x22]"

text \<open>\<^verbatim>\<open>Array.prototype.join\<close> with a comma, as the serialisation separates members.\<close>

fun join :: "string list \<Rightarrow> string" where
  "join [] = []"
| "join [x] = x"
| "join (x # y # ys) = x @ CHR '','' # join (y # ys)"

text \<open>
  The serialisation of each part of a key, with no white space (the third argument of
  \<^verbatim>\<open>JSON.stringify\<close> is \<open>0\<close>): properties in insertion order.
\<close>

fun stringify_condition :: "FilterTypeInput \<Rightarrow> string" where
  \<open>stringify_condition (Eq s) = ''{"eq":'' @ quote s @ ''}''\<close>
| \<open>stringify_condition (In xs) = ''{"in":['' @ join (map quote xs) @ '']}''\<close>

fun stringify_filter_field :: "FilterField \<Rightarrow> string" where
  \<open>stringify_filter_field (Sku c) = ''"sku":'' @ stringify_condition c\<close>
| \<open>stringify_filter_field (Url_key c) = ''"url_key":'' @ stringify_condition c\<close>

fun stringify_field :: "KeyField \<Rightarrow> string" where
  \<open>stringify_field (Search s) = ''"search":'' @ quote s\<close>
| \<open>stringify_field (Filter fs) =
     ''"filter":{'' @ join (map stringify_filter_field fs) @ ''}''\<close>
| \<open>stringify_field (CategoryId n) = ''"categoryId":'' @ show_int n\<close>
| \<open>stringify_field (CurrentPage n) = ''"currentPage":'' @ show_int n\<close>
| \<open>stringify_field (PageSize n) = ''"pageSize":'' @ show_int n\<close>

text \<open>\<^verbatim>\<open>cacheKeyFunction\<close>, line 29: \<^verbatim>\<open>JSON.stringify(key, null, 0)\<close>.\<close>

definition cacheKeyFunction :: "LoadKey \<Rightarrow> string" where
  "cacheKeyFunction key = ''{'' @ join (map stringify_field key) @ ''}''"

text \<open>
  Decoders for the leaves of the serialisation, used to show that it loses nothing:
  the value of a hexadecimal digit, one escaped character read from the front of a
  string, and the value of a decimal numeral.
\<close>

definition hex_val :: "char \<Rightarrow> nat" where
  "hex_val c = (if (of_char c :: nat) < 58 then of_char c - 48 else of_char c - 87)"

fun unescape :: "string \<Rightarrow> (char \<times> string) option" where
  "unescape [] = None"
| "unescape [c] = Some (c, [])"
| "unescape (c # x # r) =
     (if c \<noteq> CHR 0x5C then Some (c, x # r)
      else if x = CHR 0x22 then Some (CHR 0x22, r)
      else if x = CHR 0x5C then Some (CHR 0x5C, r)
      else if x = CHR ''b'' then Some (CHR 0x08, r)
      else if x = CHR ''f'' then Some (CHR 0x0C, r)
      else if x = CHR ''n'' then Some (CHR 0x0A, r)
      else if x = CHR ''r'' then Some (CHR 0x0D, r)
      else if x = CHR ''t'' then Some (CHR 0x09, r)
      else (case r of
              a # b # h # l # r' \<Rightarrow> Some (char_of (16 * hex_val h + hex_val l), r')
            | _ \<Rightarrow> None))"

definition is_digit :: "char \<Rightarrow> bool" where
  "is_digit c = (48 \<le> (of_char c :: nat) \<and> (of_char c :: nat) < 58)"

definition digits_val :: "string \<Rightarrow> nat" where
  "digits_val s = foldl (\<lambda>acc c. 10 * acc + (of_char c - 48)) 0 s"

text \<open>Two keys with the same properties and values, written in a different order.\<close>

definition demo_key :: LoadKey where
  "demo_key = [Search ''Sh'', CurrentPage 0, PageSize 10]"

definition demo_key_reordered :: LoadKey where
  "demo_key_reordered = [CurrentPage 0, PageSize 10, Search ''Sh'']"

subsection \<open>The batching loader\<close>

text \<open>
  Modelled from the spec: the \<^verbatim>\<open>dataloader\<close> package, whose \<^verbatim>\<open>DataLoader\<close> class the
  constructor instantiates at line 55 and \<^verbatim>\<open>load\<close> calls at line 61, is not among the
  sources. The spec's Batch-Cache Loader is followed: a cache from cache keys to settled
  outcomes, an in-flight batch that holds, per cache key and in order of first
  registration, the key and the callers waiting for it, and a flush that hands the keys
  of the batch to the Key Resolver once, caches every outcome under its cache key (a
  failed outcome as \<^verbatim>\<open>null\<close>) and resolves the waiting callers. A caller is the number
  of its \<^verbatim>\<open>load\<close> call.
\<close>

record loader =
  cache :: "string \<Rightarrow> jsresult option"
  pending :: "(string \<times> LoadKey \<times> nat list) list"
  delivered :: "nat \<Rightarrow> jsresult option"
  calls :: nat

definition new_loader :: loader where
  "new_loader = \<lparr>cache = Map.empty, pending = [], delivered = Map.empty, calls = 0\<rparr>"

text \<open>Registration of a caller under a cache key of the in-flight batch.\<close>

fun register :: "string \<Rightarrow> LoadKey \<Rightarrow> nat \<Rightarrow> (string \<times> LoadKey \<times> nat list) list
    \<Rightarrow> (string \<times> LoadKey \<times> nat list) list" where
  "register ck key c [] = [(ck, key, [c])]"
| "register ck key c ((ck', key', cs) # es) =
     (if ck' = ck then (ck', key', cs @ [c]) # es
      else (ck', key', cs) # register ck key c es)"

definition load :: "LoadKey \<Rightarrow> loader \<Rightarrow> loader" where
  "load key l =
     (let cacheKey = cacheKeyFunction key; c = calls l in
      case cache l cacheKey of
        Some v \<Rightarrow> l\<lparr>delivered := (delivered l)(c \<mapsto> v), calls := Suc c\<rparr>
      | None \<Rightarrow> l\<lparr>pending := register cacheKey key c (pending l), calls := Suc c\<rparr>)"

text \<open>The keys the Key Resolver receives when the batch flushes.\<close>

definition batch_keys :: "loader \<Rightarrow> LoadKey list" where
  "batch_keys l = map (\<lambda>(ck, key, cs). key) (pending l)"

text \<open>The value a settled outcome is cached and delivered as.\<close>

definition settle :: "jsresult promise \<Rightarrow> jsresult" where
  "settle p = (case p of Resolved v \<Rightarrow> v | Rejected e \<Rightarrow> Null)"

fun resolve_batch :: "(string \<times> LoadKey \<times> nat list) list \<Rightarrow> jsresult promise list \<Rightarrow> loader \<Rightarrow> loader" where
  "resolve_batch ((ck, key, cs) # es) (p # ps) l =
     resolve_batch es ps
       (l\<lparr>cache := (cache l)(ck \<mapsto> settle p),
          delivered := (\<lambda>c. if c \<in> set cs then Some (settle p) else delivered l c)\<rparr>)"
| "resolve_batch es ps l = l"

definition flush :: "backend \<Rightarrow> action_parameters option \<Rightarrow> loader \<Rightarrow> loader" where
  "flush be actionParameters l =
     (resolve_batch (pending l) (outcomes (loadingFunction be actionParameters (batch_keys l))) l)
       \<lparr>pending := []\<rparr>"

text \<open>A sequence of \<^verbatim>\<open>load\<close> calls issued before the batch flushes.\<close>

definition load_all :: "LoadKey list \<Rightarrow> loader \<Rightarrow> loader" where
  "load_all keys l = foldl (\<lambda>l key. load key l) l keys"

text \<open>
  Well-formedness of the in-flight batch when \<open>n\<close> calls of \<^verbatim>\<open>load\<close> have been made: one
  entry per cache key, each under the cache key of its own key, and every caller an
  earlier call that waits in one entry only.
\<close>

definition wf_pending :: "nat \<Rightarrow> (string \<times> LoadKey \<times> nat list) list \<Rightarrow> bool" where
  "wf_pending n es \<longleftrightarrow>
     distinct (map fst es)
     \<and> (\<forall>(ck, key, cs)\<in>set es. ck = cacheKeyFunction key \<and> (\<forall>c\<in>set cs. c < n))
     \<and> distinct (concat (map (\<lambda>(ck, key, cs). cs) es))"

text \<open>
  The states of a loader: a new one, and what \<^verbatim>\<open>load\<close> calls and flushes make of it.
  In each of them the batch is well formed and no call yet to come has a result.
\<close>

inductive reachable :: "loader \<Rightarrow> bool" where
  fresh: "reachable new_loader"
| loaded: "reachable l \<Longrightarrow> reachable (load key l)"
| flushed: "reachable l \<Longrightarrow> reachable (flush be actionParameters l)"

definition loader_inv :: "loader \<Rightarrow> bool" where
  "loader_inv l \<longleftrightarrow>
     wf_pending (calls l) (pending l) \<and> (\<forall>c. calls l \<le> c \<longrightarrow> delivered l c = None)"

subsection \<open>Observations on promises and results\<close>

definition is_resolved :: "'a promise \<Rightarrow> bool" where
  "is_resolved p = (case p of Resolved v \<Rightarrow> True | Rejected e \<Rightarrow> False)"

definition result_products :: "jsresult promise \<Rightarrow> ProductRecord list" where
  "result_products p = (case p of Resolved (Result res) \<Rightarrow> products res | _ \<Rightarrow> [])"

text \<open>\<^verbatim>\<open>typeof record.price.amount\<close>.\<close>

definition amount_type :: "ProductRecord \<Rightarrow> string" where
  "amount_type p = typeof (amount (price p))"

subsection \<open>Counting the calls to the service\<close>

definition token_acquisitions :: "backend_call list \<Rightarrow> nat" where
  "token_acquisitions cs = length (filter (\<lambda>c. c = AcquireToken) cs)"

definition table_fetches :: "backend_call list \<Rightarrow> nat" where
  "table_fetches cs = length (filter (\<lambda>c. c \<noteq> AcquireToken) cs)"

section \<open>Properties\<close>

subsection \<open>Auxiliary facts\<close>

lemma str_includes_sublist: "str_includes t s = sublist s t"
  by (induction t) (simp_all add: sublist_Cons_right)

lemma str_includes_iff: "str_includes t s \<longleftrightarrow> (\<exists>pre post. t = pre @ s @ post)"
  by (simp add: str_includes_sublist sublist_def)

lemma filter_substring:
  "filter (\<lambda>r. str_includes (r ! 1) s) rs = filter (\<lambda>r. \<exists>pre post. r ! 1 = pre @ s @ post) rs"
  by (simp add: str_includes_iff)

lemma filter_title_eq:
  "filter_title s rs =
     (if \<forall>r\<in>set rs. 2 \<le> length r then Inr (filter (\<lambda>r. str_includes (r ! 1) s) rs)
      else Inl TypeError)"
proof (induction rs)
  case Nil
  then show ?case by simp
next
  case (Cons r rs)
  show ?case
  proof (cases "2 \<le> length r")
    case True
    then show ?thesis using Cons by (simp add: cell_def)
  next
    case False
    then show ?thesis by (simp add: cell_def)
  qed
qed

lemma round_double_exact: "\<bar>n\<bar> < 2 ^ 53 \<Longrightarrow> round_double n = n"
proof -
  assume a: "\<bar>n\<bar> < 2 ^ 53"
  have "bitlen \<bar>n\<bar> \<le> 53"
  proof (cases "n = 0")
    case True
    then show ?thesis by simp
  next
    case False
    then have pos: "0 < \<bar>n\<bar>" by simp
    from bitlen_bounds[OF pos] have "2 ^ nat (bitlen \<bar>n\<bar> - 1) \<le> \<bar>n\<bar>" by simp
    with a have "(2::int) ^ nat (bitlen \<bar>n\<bar> - 1) < 2 ^ 53" by linarith
    then have "nat (bitlen \<bar>n\<bar> - 1) < 53"
      using power_less_imp_less_exp[of "2::int" "nat (bitlen \<bar>n\<bar> - 1)" 53] by simp
    then show ?thesis by linarith
  qed
  then show ?thesis by (simp add: round_double_def Let_def)
qed

lemma demo_matches:
  "filter (\<lambda>r. \<exists>pre post. r ! 1 = pre @ ''Sh'' @ post) demo_table = demo_table"
  unfolding filter_substring[symmetric] by (simp add: demo_table_def)

lemma filter_rows_cong:
  assumes "filter_arg k' = filter_arg k" "currentPage k' = currentPage k" "pageSize k' = pageSize k"
  shows "filter_rows k' values = filter_rows k values"
  by (simp only: filter_rows_def assms)

lemma search_rows_falsy: "\<not> truthy (search k) \<Longrightarrow> search_rows k values = filter_rows k values"
  by (simp add: search_rows_def)

lemma search_rows_truthy:
  "search k = Some s \<Longrightarrow> s \<noteq> [] \<Longrightarrow>
   search_rows k values =
     (case filter_title s values of
        Inl e \<Rightarrow> Rejected e
      | Inr ms \<Rightarrow> Resolved (Result \<lparr>total = length ms,
          offset = js_times (currentPage k) (pageSize k), limit = pageSize k,
          products = map record_of_row ms\<rparr>))"
  by (simp add: search_rows_def truthy_def record_of_row_def[abs_def] split: sum.splits)

lemma filter_rows_factored:
  "filter_rows params values =
     (case filter_arg params of
        None \<Rightarrow> Resolved Undefined
      | Some flt \<Rightarrow>
          if sku flt \<noteq> None \<or> url_key flt \<noteq> None then
            if (case sku flt of None \<Rightarrow> False | Some c \<Rightarrow> truthy (eq_val c))
               \<or> (case url_key flt of None \<Rightarrow> False | Some c \<Rightarrow> truthy (eq_val c))
            then
              (case find (\<lambda>row. cell row 0 = jsv (case sku flt of
                            Some c \<Rightarrow> eq_val c
                          | None \<Rightarrow> (case url_key flt of Some c \<Rightarrow> eq_val c | None \<Rightarrow> None))) values of
                    None \<Rightarrow> Rejected TypeError
                  | Some product \<Rightarrow> Resolved (Result (single_result params product)))
            else
              (case (case sku flt of
                       None \<Rightarrow> Inl TypeError
                     | Some s \<Rightarrow>
                         if in_val s \<noteq> None then Inr True
                         else (case url_key flt of
                                 None \<Rightarrow> Inl TypeError
                               | Some u \<Rightarrow> Inr (in_val u \<noteq> None))) of
                 Inl e \<Rightarrow> Rejected e
               | Inr False \<Rightarrow> Resolved Undefined
               | Inr True \<Rightarrow>
                   (case filter_member (case sku flt of
                                  Some s \<Rightarrow> in_val s
                                | None \<Rightarrow> (case url_key flt of Some u \<Rightarrow> in_val u | None \<Rightarrow> None)) values of
                         Inl e \<Rightarrow> Rejected e
                       | Inr product \<Rightarrow> Resolved (Result (list_result params product))))
          else Resolved Undefined)"
  unfolding filter_rows_def single_result_def list_result_def record_of_row_def Let_def
  by (rule refl)

lemma search_rows_factored:
  "search_rows params values =
     (case (if truthy (search params) then search params else None) of
        Some s \<Rightarrow>
          (case filter_title s values of
             Inl e \<Rightarrow> Rejected e
           | Inr product \<Rightarrow> Resolved (Result (list_result params product)))
      | None \<Rightarrow> filter_rows params values)"
  unfolding search_rows_def list_result_def record_of_row_def
  by (rule refl)

lemma find_in_set: "find P xs = Some x \<Longrightarrow> x \<in> set xs"
  by (auto simp: find_Some_iff)

lemma find_first:
  assumes "n < length xs" "P (xs ! n)" "\<forall>m<n. \<not> P (xs ! m)"
  shows "find P xs = Some (xs ! n)"
  using assms by (auto simp: find_Some_iff)

lemma find_none: "\<forall>x\<in>set xs. \<not> P x \<Longrightarrow> find P xs = None"
  by (simp add: find_None_iff)

lemma filter_member_subset: "filter_member keys values = Inr rs \<Longrightarrow> set rs \<subseteq> set values"
  by (auto simp: filter_member_def split: option.splits if_splits)

lemma filter_title_subset: "filter_title s values = Inr rs \<Longrightarrow> set rs \<subseteq> set values"
  by (auto simp: filter_title_eq split: if_splits)

lemma filter_rows_rows:
  assumes "filter_rows params values = Resolved (Result res)"
  shows "\<exists>rs. set rs \<subseteq> set values \<and> products res = map record_of_row rs"
proof -
  have one: "\<exists>rs. set rs \<subseteq> set values \<and> products (single_result params r) = map record_of_row rs"
    if "r \<in> set values" for r
    using that by (intro exI[of _ "[r]"]) (simp add: single_result_def)
  have many: "\<exists>rs'. set rs' \<subseteq> set values \<and> products (list_result params rs) = map record_of_row rs'"
    if "set rs \<subseteq> set values" for rs
    using that by (intro exI[of _ rs]) (simp add: list_result_def)
  from assms show ?thesis
    unfolding filter_rows_factored
    by (auto split: option.splits if_splits sum.splits bool.splits
        dest!: find_in_set filter_member_subset intro: one many)
qed

lemma search_rows_rows:
  assumes "search_rows params values = Resolved (Result res)"
  shows "\<exists>rs. set rs \<subseteq> set values \<and> products res = map record_of_row rs"
proof (cases "truthy (search params)")
  case True
  with assms show ?thesis
    unfolding search_rows_factored
    by (auto split: option.splits sum.splits dest!: filter_title_subset
        intro: exI[of _ "_ :: row list"] simp: list_result_def truthy_def)
next
  case False
  with assms show ?thesis
    unfolding search_rows_factored by (simp add: filter_rows_rows)
qed

lemma filter_rows_eq:
  assumes "filter_arg params = Some flt"
    and "sku flt = Some (Eq v) \<or> (sku flt = None \<and> url_key flt = Some (Eq v))"
    and "v \<noteq> []"
  shows "filter_rows params values =
     (case find (\<lambda>row. cell row 0 = JString v) values of
        None \<Rightarrow> Rejected TypeError
      | Some r \<Rightarrow> Resolved (Result (single_result params r)))"
  using assms unfolding filter_rows_factored
  by (auto simp: truthy_def jsv_def)


lemma search_rows_demo_key:
  "search_rows demo_key demo_table = Resolved (Result (list_result demo_key demo_table))"
  by (simp add: search_rows_factored demo_key_def truthy_def filter_title_eq demo_table_def)

subsection \<open>The batch resolver\<close>

lemma outcomes_length: "length (outcomes (loadingFunction be ap keys)) = length keys"
  by (simp add: outcomes_def loadingFunction_def)

lemma outcomes_nth:
  "i < length keys \<Longrightarrow>
   outcomes (loadingFunction be ap keys) ! i =
     catch (snd (searchProducts be i (keys ! i) ap)) catch_handler"
  by (simp add: outcomes_def loadingFunction_def nth_enumerate_eq split: prod.splits)

lemma searchProducts_fetched:
  assumes "getAuthToken be i = Resolved tok"
    and "getSpreadSheetValues be i \<lparr>spreadsheetId = SPREADSHEET ap, auth = tok,
           spreadsheetRange = ''weretail-internal!C2:G''\<rparr> = Resolved values"
  shows "searchProducts be i params (Some ap) =
     ([AcquireToken, FetchTable \<lparr>spreadsheetId = SPREADSHEET ap, auth = tok,
           spreadsheetRange = ''weretail-internal!C2:G''\<rparr>], search_rows params values)"
  using assms by (simp add: searchProducts_def Let_def)

lemma searchProducts_demo:
  "searchProducts demo_backend i params (Some demo_parameters) =
     ([AcquireToken, FetchTable \<lparr>spreadsheetId = Some ''sheet'', auth = Credential ''token'',
           spreadsheetRange = ''weretail-internal!C2:G''\<rparr>], search_rows params demo_table)"
  by (simp add: searchProducts_def Let_def demo_backend_def demo_parameters_def)


lemma searchProducts_no_token:
  "\<not> is_resolved (getAuthToken be i) \<Longrightarrow> \<exists>e. snd (searchProducts be i key ap) = Rejected e"
  by (simp add: searchProducts_def is_resolved_def split: option.splits promise.splits)

lemma searchProducts_no_table:
  "getAuthToken be i = Resolved tok \<Longrightarrow>
   \<not> is_resolved (getSpreadSheetValues be i \<lparr>spreadsheetId = SPREADSHEET a, auth = tok,
           spreadsheetRange = ''weretail-internal!C2:G''\<rparr>) \<Longrightarrow>
   \<exists>e. snd (searchProducts be i key (Some a)) = Rejected e"
  by (simp add: searchProducts_def is_resolved_def Let_def split: promise.splits)

lemma catch_resolved: "catch (Resolved v) catch_handler = Resolved v"
  by (simp add: catch_def)

lemma catch_rejected:
  "catch (Rejected e) catch_handler = (if serialisable e then Resolved Null else Rejected TypeError)"
  by (cases e) (simp_all add: catch_def catch_handler_def json_of_error_def serialisable_def)

lemma serialisable_TypeError: "serialisable TypeError"
  by (simp add: serialisable_def json_of_error_def)



subsection \<open>Free-text search\<close>

text \<open>
  Claim C5, as stated, has every key with a non-empty \<^verbatim>\<open>search\<close> return the rows whose
  title contains the term. On a table with a row of one cell the resolution throws in
  \<^verbatim>\<open>row[1].includes\<close>, although the title of the first row contains the term.
\<close>

theorem row_without_title_fails_search:
  "search_rows demo_key [[''S1'', ''Shirt'', [], ''19.99'', ''img1''], [''S3'']]
     = Rejected TypeError
   \<and> str_includes ''Shirt'' ''Sh''"
  by (simp add: search_rows_factored demo_key_def truthy_def filter_title_eq)

text \<open>
  Claim C5, amended. For a key whose \<^verbatim>\<open>search\<close> is a non-empty string \<open>s\<close>: when every row
  of the fetched table has a title cell, the resolution returns the records of exactly
  the rows whose second cell contains \<open>s\<close> as a contiguous, case-sensitive substring, in
  table order and without any slicing to the page, \<^verbatim>\<open>total\<close> is the number of those
  rows, \<^verbatim>\<open>offset\<close> is the product \<^verbatim>\<open>currentPage * pageSize\<close> as JavaScript computes it
  (the exact product below \<open>2 ^ 53\<close>) and \<^verbatim>\<open>limit\<close> is \<^verbatim>\<open>pageSize\<close>; when some row has no
  title cell, the resolution is rejected with a \<^verbatim>\<open>TypeError\<close>, whatever the other rows
  hold.
\<close>

theorem search_returns_title_matches:
  assumes "search params = Some s" and "s \<noteq> []"
    and "currentPage params = Some cp" and "pageSize params = Some ps"
  shows "search_rows params values =
       (if \<forall>r\<in>set values. 2 \<le> length r then
          Resolved (Result \<lparr>
            total = length (filter (\<lambda>r. \<exists>pre post. r ! 1 = pre @ s @ post) values),
            offset = Num (round_double (cp * ps)),
            limit = Some ps,
            products =
              map record_of_row (filter (\<lambda>r. \<exists>pre post. r ! 1 = pre @ s @ post) values)\<rparr>)
        else Rejected TypeError)
     \<and> (\<bar>cp * ps\<bar> < 2 ^ 53 \<longrightarrow> round_double (cp * ps) = cp * ps)"
proof -
  have "search_rows params values =
       (if \<forall>r\<in>set values. 2 \<le> length r then
          Resolved (Result \<lparr>
            total = length (filter (\<lambda>r. str_includes (r ! 1) s) values),
            offset = Num (round_double (cp * ps)),
            limit = Some ps,
            products = map record_of_row (filter (\<lambda>r. str_includes (r ! 1) s) values)\<rparr>)
        else Rejected TypeError)"
    using assms
    by (simp add: search_rows_def truthy_def filter_title_eq record_of_row_def[abs_def]
        js_times_def)
  then show ?thesis
    unfolding filter_substring by (simp add: round_double_exact)
qed

theorem search_returns_title_matches_witness:
  "search_rows [Search ''Sh'', CurrentPage 0, PageSize 10] demo_table =
       Resolved (Result \<lparr>total = 2, offset = Num 0, limit = Some 10,
         products = map record_of_row demo_table\<rparr>)
   \<and> search_rows [Search ''Sh'', CurrentPage 0, PageSize 10]
         [[''S1'', ''Shirt'', [], ''19.99'', ''img1''], [''S3'']] = Rejected TypeError"
proof -
  let ?k = "[Search ''Sh'', CurrentPage 0, PageSize 10]"
  let ?short = "[[''S1'', ''Shirt'', [], ''19.99'', ''img1''], [''S3'']]"
  have a1: "search ?k = Some ''Sh''" and a2: "''Sh'' \<noteq> []"
    and a3: "currentPage ?k = Some 0" and a4: "pageSize ?k = Some 10"
    by simp_all
  have h: "\<forall>r\<in>set demo_table. 2 \<le> length r" by (simp add: demo_table_def)
  have n: "\<not> (\<forall>r\<in>set ?short. 2 \<le> length r)" by simp
  have r0: "round_double (0 * 10) = 0" by (simp add: round_double_def)
  have l: "length demo_table = 2" by (simp add: demo_table_def)
  from search_returns_title_matches[OF a1 a2 a3 a4, of demo_table]
  have "search_rows ?k demo_table =
       (if \<forall>r\<in>set demo_table. 2 \<le> length r then
          Resolved (Result \<lparr>total = 2, offset = Num 0, limit = Some 10,
            products = map record_of_row demo_table\<rparr>)
        else Rejected TypeError)"
    unfolding demo_matches r0 l by (rule conjunct1)
  with h have full: "search_rows ?k demo_table =
       Resolved (Result \<lparr>total = 2, offset = Num 0, limit = Some 10,
         products = map record_of_row demo_table\<rparr>)"
    by simp
  from search_returns_title_matches[OF a1 a2 a3 a4, of ?short] n
  have "search_rows ?k ?short = Rejected TypeError"
    by simp
  with full show ?thesis by simp
qed

subsection \<open>Branch selection\<close>

text \<open>
  Claim C10. The branch is chosen by the truthiness of \<^verbatim>\<open>params.search\<close>. When it is a
  non-empty string the search semantics apply and the result does not depend on the
  \<^verbatim>\<open>filter\<close> property: any key with the same \<^verbatim>\<open>search\<close>, \<^verbatim>\<open>currentPage\<close> and
  \<^verbatim>\<open>pageSize\<close> resolves alike. When it is the empty string the key is handled by the
  filter branch, exactly as the key without a \<^verbatim>\<open>search\<close> property is.
\<close>

theorem search_truthiness_selects_branch:
  "(search k = Some s \<and> s \<noteq> [] \<longrightarrow>
      search_rows k values =
        (case filter_title s values of
           Inl e \<Rightarrow> Rejected e
         | Inr ms \<Rightarrow> Resolved (Result \<lparr>total = length ms,
             offset = js_times (currentPage k) (pageSize k), limit = pageSize k,
             products = map record_of_row ms\<rparr>))
      \<and> (\<forall>k'. search k' = Some s \<and> currentPage k' = currentPage k \<and> pageSize k' = pageSize k
         \<longrightarrow> search_rows k' values = search_rows k values))
   \<and> (search k = Some [] \<longrightarrow>
      search_rows k values = filter_rows k values
      \<and> (\<forall>k'. search k' = None \<and> filter_arg k' = filter_arg k
           \<and> currentPage k' = currentPage k \<and> pageSize k' = pageSize k
         \<longrightarrow> search_rows k' values = search_rows k values))"
proof (intro conjI impI allI)
  assume "search k = Some s \<and> s \<noteq> []"
  then show "search_rows k values =
        (case filter_title s values of
           Inl e \<Rightarrow> Rejected e
         | Inr ms \<Rightarrow> Resolved (Result \<lparr>total = length ms,
             offset = js_times (currentPage k) (pageSize k), limit = pageSize k,
             products = map record_of_row ms\<rparr>))"
    by (simp add: search_rows_truthy)
next
  fix k'
  assume "search k = Some s \<and> s \<noteq> []"
    and "search k' = Some s \<and> currentPage k' = currentPage k \<and> pageSize k' = pageSize k"
  then show "search_rows k' values = search_rows k values"
    by (simp add: search_rows_truthy split: sum.splits)
next
  assume "search k = Some []"
  then show "search_rows k values = filter_rows k values"
    by (simp add: search_rows_falsy truthy_def)
next
  fix k'
  assume a: "search k = Some []"
    and b: "search k' = None \<and> filter_arg k' = filter_arg k
           \<and> currentPage k' = currentPage k \<and> pageSize k' = pageSize k"
  from a have "search_rows k values = filter_rows k values"
    by (simp add: search_rows_falsy truthy_def)
  moreover from b have "search_rows k' values = filter_rows k' values"
    by (simp add: search_rows_falsy truthy_def)
  moreover from b have "filter_rows k' values = filter_rows k values"
    by (intro filter_rows_cong) simp_all
  ultimately show "search_rows k' values = search_rows k values"
    by simp
qed

theorem search_truthiness_selects_branch_witness:
  "search_rows [Search ''Sh'', Filter [Sku (Eq ''S2'')], CurrentPage 0, PageSize 10] demo_table
     = search_rows [Search ''Sh'', CurrentPage 0, PageSize 10] demo_table
   \<and> search_rows [Search [], Filter [Sku (Eq ''S2'')], CurrentPage 0, PageSize 10] demo_table
     = search_rows [Filter [Sku (Eq ''S2'')], CurrentPage 0, PageSize 10] demo_table"
proof -
  let ?a = "[Search ''Sh'', Filter [Sku (Eq ''S2'')], CurrentPage 0, PageSize 10]"
  let ?a' = "[Search ''Sh'', CurrentPage 0, PageSize 10]"
  let ?b = "[Search [], Filter [Sku (Eq ''S2'')], CurrentPage 0, PageSize 10]"
  let ?b' = "[Filter [Sku (Eq ''S2'')], CurrentPage 0, PageSize 10]"
  have a: "search ?a = Some ''Sh'' \<and> ''Sh'' \<noteq> []"
    and a': "search ?a' = Some ''Sh'' \<and> currentPage ?a' = currentPage ?a \<and> pageSize ?a' = pageSize ?a"
    and b: "search ?b = Some []"
    and b': "search ?b' = None \<and> filter_arg ?b' = filter_arg ?b
           \<and> currentPage ?b' = currentPage ?b \<and> pageSize ?b' = pageSize ?b"
    by simp_all
  from search_truthiness_selects_branch[of ?a "''Sh''" demo_table] a a'
  have "search_rows ?a' demo_table = search_rows ?a demo_table" by blast
  moreover from search_truthiness_selects_branch[of ?b "''Sh''" demo_table] b b'
  have "search_rows ?b' demo_table = search_rows ?b demo_table" by blast
  ultimately show ?thesis by simp
qed

subsection \<open>Exact-match filters\<close>

text \<open>
  When the exact-match value is read where the branch found it (a non-empty value under
  \<^verbatim>\<open>sku\<close>, or under \<^verbatim>\<open>url_key\<close> with no \<^verbatim>\<open>sku\<close>), no \<^verbatim>\<open>search\<close> is truthy and the
  service answers, the first row with that value is the one record of the result, with
  \<^verbatim>\<open>total\<close> 1; with no such row \<^verbatim>\<open>__searchProducts\<close> rejects with the \<^verbatim>\<open>TypeError\<close> of
  the read on \<^verbatim>\<open>undefined\<close>, and the handler resolves the key's promise with \<^verbatim>\<open>null\<close>.
\<close>

lemma exact_match_resolution:
  assumes "\<not> truthy (search params)"
    and "filter_arg params = Some flt"
    and "sku flt = Some (Eq v) \<or> (sku flt = None \<and> url_key flt = Some (Eq v))"
    and "v \<noteq> []"
    and "i < length keys" and "keys ! i = params"
    and "getAuthToken be i = Resolved tok"
    and "getSpreadSheetValues be i \<lparr>spreadsheetId = SPREADSHEET ap, auth = tok,
           spreadsheetRange = ''weretail-internal!C2:G''\<rparr> = Resolved values"
  shows "(\<forall>n<length values.
            cell (values ! n) 0 = JString v \<and> (\<forall>m<n. cell (values ! m) 0 \<noteq> JString v) \<longrightarrow>
              snd (searchProducts be i params (Some ap)) =
                Resolved (Result \<lparr>total = 1,
                  offset = js_times (currentPage params) (pageSize params),
                  limit = pageSize params,
                  products = [record_of_row (values ! n)]\<rparr>)
            \<and> outcomes (loadingFunction be (Some ap) keys) ! i =
                Resolved (Result \<lparr>total = 1,
                  offset = js_times (currentPage params) (pageSize params),
                  limit = pageSize params,
                  products = [record_of_row (values ! n)]\<rparr>))
       \<and> ((\<forall>r\<in>set values. cell r 0 \<noteq> JString v) \<longrightarrow>
              snd (searchProducts be i params (Some ap)) = Rejected TypeError
            \<and> outcomes (loadingFunction be (Some ap) keys) ! i = Resolved Null)"
proof -
  have sp: "snd (searchProducts be i params (Some ap)) =
     (case find (\<lambda>row. cell row 0 = JString v) values of
        None \<Rightarrow> Rejected TypeError
      | Some r \<Rightarrow> Resolved (Result (single_result params r)))"
    using assms(1) filter_rows_eq[OF assms(2,3,4)]
    by (simp add: searchProducts_fetched[OF assms(7,8)] search_rows_falsy)
  have out: "outcomes (loadingFunction be (Some ap) keys) ! i =
      catch (snd (searchProducts be i params (Some ap))) catch_handler"
    using outcomes_nth[OF assms(5)] assms(6) by simp
  show ?thesis
  proof (intro conjI allI impI)
    fix n
    assume n: "n < length values"
      and "cell (values ! n) 0 = JString v \<and> (\<forall>m<n. cell (values ! m) 0 \<noteq> JString v)"
    then have "find (\<lambda>row. cell row 0 = JString v) values = Some (values ! n)"
      by (intro find_first) simp_all
    with sp have r: "snd (searchProducts be i params (Some ap)) =
        Resolved (Result (single_result params (values ! n)))" by simp
    then show "snd (searchProducts be i params (Some ap)) =
                Resolved (Result \<lparr>total = 1,
                  offset = js_times (currentPage params) (pageSize params),
                  limit = pageSize params,
                  products = [record_of_row (values ! n)]\<rparr>)"
      by (simp add: single_result_def)
    from r out show "outcomes (loadingFunction be (Some ap) keys) ! i =
                Resolved (Result \<lparr>total = 1,
                  offset = js_times (currentPage params) (pageSize params),
                  limit = pageSize params,
                  products = [record_of_row (values ! n)]\<rparr>)"
      by (simp add: single_result_def catch_resolved)
  next
    assume "\<forall>r\<in>set values. cell r 0 \<noteq> JString v"
    then have "find (\<lambda>row. cell row 0 = JString v) values = None"
      by (intro find_none) simp
    with sp show r: "snd (searchProducts be i params (Some ap)) = Rejected TypeError" by simp
    with out show "outcomes (loadingFunction be (Some ap) keys) ! i = Resolved Null"
      by (simp add: catch_rejected serialisable_TypeError)
  qed
qed

text \<open>
  Claim C7. A key with the exact-match filter \<^verbatim>\<open>url_key.eq\<close> of value S2 and a \<^verbatim>\<open>sku\<close>
  condition beside it is not resolved, although the table has a row S2, which the same
  filter alone returns. The branch of line 117 is entered through \<^verbatim>\<open>url_key.eq\<close>, and
  line 121 then reads the value from \<^verbatim>\<open>params.filter.sku\<close> because it is present:
  \<^verbatim>\<open>undefined\<close> beside \<^verbatim>\<open>sku.in\<close>, the empty string beside an empty \<^verbatim>\<open>sku.eq\<close>. No row
  has it, the read of line 135 throws, and the loader is handed \<^verbatim>\<open>null\<close>.
\<close>

theorem exact_match_beside_sku_finds_no_row:
  "search_rows [Filter [Sku (In [''S1'']), Url_key (Eq ''S2'')], CurrentPage 0, PageSize 10]
       demo_table = Rejected TypeError
   \<and> outcomes (loadingFunction demo_backend (Some demo_parameters)
        [[Filter [Sku (In [''S1'']), Url_key (Eq ''S2'')], CurrentPage 0, PageSize 10]])
     = [Resolved Null]
   \<and> search_rows [Filter [Sku (Eq []), Url_key (Eq ''S2'')], CurrentPage 0, PageSize 10]
       demo_table = Rejected TypeError
   \<and> search_rows [Filter [Url_key (Eq ''S2'')], CurrentPage 0, PageSize 10] demo_table
     = Resolved (Result \<lparr>total = 1, offset = Num 0, limit = Some 10,
         products = [record_of_row [''S2'', ''Shoe'', [], ''49.99'', ''img2'']]\<rparr>)"
proof (intro conjI)
  let ?k = "[Filter [Sku (In [''S1'']), Url_key (Eq ''S2'')], CurrentPage 0, PageSize 10]"
  show r: "search_rows ?k demo_table = Rejected TypeError"
    by (simp add: search_rows_falsy truthy_def filter_rows_factored jsv_def demo_table_def
        cell_def)
  have "outcomes (loadingFunction demo_backend (Some demo_parameters) [?k])
      = [catch (search_rows ?k demo_table) catch_handler]"
    by (simp add: outcomes_def loadingFunction_def searchProducts_demo)
  with r show "outcomes (loadingFunction demo_backend (Some demo_parameters) [?k])
      = [Resolved Null]"
    by (simp add: catch_rejected serialisable_TypeError)
  show "search_rows [Filter [Sku (Eq []), Url_key (Eq ''S2'')], CurrentPage 0, PageSize 10]
       demo_table = Rejected TypeError"
    by (simp add: search_rows_falsy truthy_def filter_rows_factored jsv_def demo_table_def
        cell_def)
  show "search_rows [Filter [Url_key (Eq ''S2'')], CurrentPage 0, PageSize 10] demo_table
     = Resolved (Result \<lparr>total = 1, offset = Num 0, limit = Some 10,
         products = [record_of_row [''S2'', ''Shoe'', [], ''49.99'', ''img2'']]\<rparr>)"
    by (simp add: search_rows_falsy truthy_def filter_rows_factored jsv_def demo_table_def
        cell_def single_result_def js_times_def round_double_def)
qed

subsection \<open>Membership filters\<close>

text \<open>
  With the membership values under \<^verbatim>\<open>sku\<close>, and no truthy \<^verbatim>\<open>eq\<close> under \<^verbatim>\<open>url_key\<close>, the
  result holds the rows whose first cell is one of the values, in the order of the table.
  With the values under \<^verbatim>\<open>url_key\<close> and no \<^verbatim>\<open>sku\<close>, the resolution is rejected whatever
  the table holds.
\<close>

lemma sku_membership_in_table_order:
  assumes "\<not> truthy (search params)" and "filter_arg params = Some flt"
    and "sku flt = Some (In xs)"
    and "url_key flt = None \<or> (\<exists>ys. url_key flt = Some (In ys)) \<or> url_key flt = Some (Eq [])"
  shows "search_rows params values =
     Resolved (Result \<lparr>
       total = length (filter (\<lambda>r. r \<noteq> [] \<and> hd r \<in> set xs) values),
       offset = js_times (currentPage params) (pageSize params),
       limit = pageSize params,
       products = map record_of_row (filter (\<lambda>r. r \<noteq> [] \<and> hd r \<in> set xs) values)\<rparr>)"
proof -
  have c: "(cell r 0 \<in> JString ` set xs) = (r \<noteq> [] \<and> hd r \<in> set xs)" for r
    by (cases r) (auto simp: cell_def)
  from assms(2,3,4) have "filter_rows params values =
      Resolved (Result (list_result params (filter (\<lambda>r. cell r 0 \<in> JString ` set xs) values)))"
    unfolding filter_rows_factored by (auto simp: truthy_def filter_member_def)
  with assms(1) show ?thesis
    by (simp add: search_rows_falsy list_result_def c)
qed

lemma url_key_membership_never_resolves:
  assumes "\<not> truthy (search params)" and "filter_arg params = Some flt"
    and "sku flt = None" and "url_key flt = Some (In xs)"
  shows "search_rows params values = Rejected TypeError"
  using assms unfolding filter_rows_factored search_rows_factored
  by (simp add: truthy_def)

text \<open>
  Claim C6. A key whose membership filter is on \<^verbatim>\<open>url_key\<close> alone is not resolved: the
  condition of line 147 reads \<^verbatim>\<open>params.filter.sku.in\<close> while \<^verbatim>\<open>params.filter.sku\<close> is
  \<^verbatim>\<open>undefined\<close>, the function rejects and the loader is handed \<^verbatim>\<open>null\<close>, although the
  rows S1 and S2 are in the table. The same values under \<^verbatim>\<open>sku\<close> return both rows, in
  table order.
\<close>

theorem url_key_membership_rejects:
  "search_rows [Filter [Url_key (In [''S1'', ''S2''])], CurrentPage 0, PageSize 5] demo_table
     = Rejected TypeError
   \<and> outcomes (loadingFunction demo_backend (Some demo_parameters)
        [[Filter [Url_key (In [''S1'', ''S2''])], CurrentPage 0, PageSize 5]]) = [Resolved Null]
   \<and> search_rows [Filter [Sku (In [''S2'', ''S1''])], CurrentPage 0, PageSize 5] demo_table
     = Resolved (Result \<lparr>total = 2, offset = Num 0, limit = Some 5,
         products = [record_of_row [''S1'', ''Shirt'', [], ''19.99'', ''img1''],
                     record_of_row [''S2'', ''Shoe'', [], ''49.99'', ''img2'']]\<rparr>)"
proof (intro conjI)
  let ?k = "[Filter [Url_key (In [''S1'', ''S2''])], CurrentPage 0, PageSize 5]"
  show r: "search_rows ?k demo_table = Rejected TypeError"
    by (simp add: search_rows_falsy truthy_def filter_rows_factored)
  have "outcomes (loadingFunction demo_backend (Some demo_parameters) [?k])
      = [catch (search_rows ?k demo_table) catch_handler]"
    by (simp add: outcomes_def loadingFunction_def searchProducts_demo)
  with r show "outcomes (loadingFunction demo_backend (Some demo_parameters) [?k]) = [Resolved Null]"
    by (simp add: catch_rejected serialisable_TypeError)
  show "search_rows [Filter [Sku (In [''S2'', ''S1''])], CurrentPage 0, PageSize 5] demo_table
     = Resolved (Result \<lparr>total = 2, offset = Num 0, limit = Some 5,
         products = [record_of_row [''S1'', ''Shirt'', [], ''19.99'', ''img1''],
                     record_of_row [''S2'', ''Shoe'', [], ''49.99'', ''img2'']]\<rparr>)"
    by (simp add: search_rows_falsy truthy_def filter_rows_factored filter_member_def
        list_result_def demo_table_def cell_def js_times_def round_double_def)
qed

subsection \<open>Product records\<close>

text \<open>
  Claim C9, as stated, asks \<^verbatim>\<open>price.amount\<close> to be a number. In the scenario table the
  amount of the first record is the string of the price cell.
\<close>

theorem amount_is_the_cell_string:
  "result_products (search_rows demo_key demo_table) =
     [record_of_row [''S1'', ''Shirt'', [], ''19.99'', ''img1''],
      record_of_row [''S2'', ''Shoe'', [], ''49.99'', ''img2'']]
   \<and> amount (price (record_of_row [''S1'', ''Shirt'', [], ''19.99'', ''img1''])) = JString ''19.99''
   \<and> amount_type (record_of_row [''S1'', ''Shirt'', [], ''19.99'', ''img1'']) = ''string''
   \<and> amount_type (record_of_row [''S1'', ''Shirt'', [], ''19.99'', ''img1'']) \<noteq> ''number''"
proof -
  have "search_rows demo_key demo_table = Resolved (Result (list_result demo_key demo_table))"
    by (simp add: search_rows_factored demo_key_def truthy_def filter_title_eq demo_table_def)
  then have "result_products (search_rows demo_key demo_table) = map record_of_row demo_table"
    by (simp add: result_products_def list_result_def)
  then show ?thesis
    by (simp add: demo_table_def record_of_row_def amount_type_def typeof_def cell_def)
qed

text \<open>
  Claim C9, amended. Every record of every result is made from a row of the fetched
  table by the fixed mapping: \<^verbatim>\<open>sku\<close> is the first cell, \<^verbatim>\<open>title\<close> the second,
  \<^verbatim>\<open>description\<close> the text \<^verbatim>\<open>Description for product\<close> followed by the title,
  \<^verbatim>\<open>price.currency\<close> the constant \<^verbatim>\<open>USD\<close>, \<^verbatim>\<open>price.amount\<close> the fourth cell unchanged
  (a string whenever the row has that cell), \<^verbatim>\<open>image_url\<close> the fifth cell and
  \<^verbatim>\<open>categoryIds\<close> the constant pair 1, 2. A cell the row does not have reads
  \<^verbatim>\<open>undefined\<close>.
\<close>

theorem product_record_mapping:
  assumes "search_rows params values = Resolved (Result res)" and "p \<in> set (products res)"
  shows "\<exists>r\<in>set values.
      sku_of p = cell r 0
    \<and> title p = cell r 1
    \<and> description p = ''Description for product '' @ toString (cell r 1)
    \<and> price p = \<lparr>currency = ''USD'', amount = cell r 3\<rparr>
    \<and> image_url p = cell r 4
    \<and> categoryIds p = [1, 2]
    \<and> (3 < length r \<longrightarrow> amount (price p) = JString (r ! 3) \<and> typeof (amount (price p)) = ''string'')"
proof -
  from search_rows_rows[OF assms(1)] obtain rs
    where rs: "set rs \<subseteq> set values" "products res = map record_of_row rs" by blast
  with assms(2) obtain r where r: "r \<in> set values" "p = record_of_row r" by auto
  from r(2) have "sku_of p = cell r 0
    \<and> title p = cell r 1
    \<and> description p = ''Description for product '' @ toString (cell r 1)
    \<and> price p = \<lparr>currency = ''USD'', amount = cell r 3\<rparr>
    \<and> image_url p = cell r 4
    \<and> categoryIds p = [1, 2]
    \<and> (3 < length r \<longrightarrow> amount (price p) = JString (r ! 3) \<and> typeof (amount (price p)) = ''string'')"
    by (simp add: record_of_row_def cell_def typeof_def)
  with r(1) show ?thesis by blast
qed

theorem product_record_mapping_witness:
  "search_rows demo_key demo_table = Resolved (Result (list_result demo_key demo_table))
   \<and> record_of_row [''S2'', ''Shoe'', [], ''49.99'', ''img2'']
       \<in> set (products (list_result demo_key demo_table))
   \<and> categoryIds (record_of_row [''S2'', ''Shoe'', [], ''49.99'', ''img2'']) = [1, 2]
   \<and> price (record_of_row [''S2'', ''Shoe'', [], ''49.99'', ''img2''])
       = \<lparr>currency = ''USD'', amount = JString ''49.99''\<rparr>"
proof -
  let ?p = "record_of_row [''S2'', ''Shoe'', [], ''49.99'', ''img2'']"
  have mem: "?p \<in> set (products (list_result demo_key demo_table))"
    by (simp add: list_result_def demo_table_def)
  from product_record_mapping[OF search_rows_demo_key mem]
  obtain r where r: "r \<in> set demo_table" "sku_of ?p = cell r 0" "categoryIds ?p = [1, 2]"
    "price ?p = \<lparr>currency = ''USD'', amount = cell r 3\<rparr>"
    by blast
  from r(1,2) have "r = [''S2'', ''Shoe'', [], ''49.99'', ''img2'']"
    by (auto simp: demo_table_def record_of_row_def cell_def)
  with r(3,4) have "categoryIds ?p = [1, 2]"
    "price ?p = \<lparr>currency = ''USD'', amount = JString ''49.99''\<rparr>"
    by (simp_all add: cell_def)
  with search_rows_demo_key mem show ?thesis by simp
qed

subsection \<open>Calls to the service\<close>

lemma calls_of_key_tokens:
  "token_acquisitions (fst (searchProducts be i key (Some ap))) = 1"
  by (simp add: searchProducts_def token_acquisitions_def Let_def split: promise.splits)

lemma calls_of_key_fetches:
  "table_fetches (fst (searchProducts be i key (Some ap))) =
     (if is_resolved (getAuthToken be i) then 1 else 0)"
  by (simp add: searchProducts_def table_fetches_def is_resolved_def Let_def split: promise.splits)

lemma calls_without_parameters: "fst (searchProducts be i key None) = []"
  by (simp add: searchProducts_def)

lemma token_acquisitions_append:
  "token_acquisitions (xs @ ys) = token_acquisitions xs + token_acquisitions ys"
  by (simp add: token_acquisitions_def)

lemma table_fetches_append: "table_fetches (xs @ ys) = table_fetches xs + table_fetches ys"
  by (simp add: table_fetches_def)

lemma backend_calls_enumerate:
  "backend_calls (loadingFunction be ap keys) =
     concat (map (\<lambda>(i, key). fst (searchProducts be i key ap)) (enumerate 0 keys))"
  by (simp add: backend_calls_def loadingFunction_def split_def comp_def)

lemma tokens_enumerate:
  "token_acquisitions (concat (map (\<lambda>(i, key). fst (searchProducts be i key (Some ap)))
      (enumerate n keys))) = length keys"
  by (induction keys arbitrary: n) (simp_all add: token_acquisitions_append calls_of_key_tokens,
      simp add: token_acquisitions_def)

lemma fetches_enumerate:
  "table_fetches (concat (map (\<lambda>(i, key). fst (searchProducts be i key (Some ap)))
      (enumerate n keys))) =
     length (filter (\<lambda>i. is_resolved (getAuthToken be i)) [n..<n + length keys])"
proof (induction keys arbitrary: n)
  case Nil
  then show ?case by (simp add: table_fetches_def)
next
  case (Cons key keys)
  have "[n..<n + Suc (length keys)] = n # [Suc n..<n + Suc (length keys)]"
    by (rule upt_conv_Cons) simp
  then have "[n..<n + length (key # keys)] = n # [Suc n..<Suc n + length keys]"
    by simp
  then show ?case
    using Cons[of "Suc n"] by (simp add: table_fetches_append calls_of_key_fetches)
qed

text \<open>
  Claim C1, as stated, has one token acquisition and one table fetch per invocation of
  the resolver. A batch of two keys makes two of each.
\<close>

theorem two_keys_two_round_trips:
  "token_acquisitions (backend_calls
      (loadingFunction demo_backend (Some demo_parameters) [demo_key, demo_key_reordered])) = 2
   \<and> table_fetches (backend_calls
      (loadingFunction demo_backend (Some demo_parameters) [demo_key, demo_key_reordered])) = 2"
  by (simp add: backend_calls_def loadingFunction_def searchProducts_demo
      token_acquisitions_def table_fetches_def)

text \<open>
  Claim C1, amended. The resolver contacts the service once per key of the batch: with
  the action parameters supplied, a batch of \<open>n\<close> keys makes \<open>n\<close> token acquisitions and
  one table fetch for every key whose token acquisition succeeded. Without action
  parameters no call is made.
\<close>

theorem backend_contacted_once_per_key:
  "token_acquisitions (backend_calls (loadingFunction be (Some ap) keys)) = length keys
   \<and> table_fetches (backend_calls (loadingFunction be (Some ap) keys)) =
       length (filter (\<lambda>i. is_resolved (getAuthToken be i)) [0..<length keys])
   \<and> backend_calls (loadingFunction be None keys) = []"
proof (intro conjI)
  show "token_acquisitions (backend_calls (loadingFunction be (Some ap) keys)) = length keys"
    by (simp add: backend_calls_enumerate tokens_enumerate)
  show "table_fetches (backend_calls (loadingFunction be (Some ap) keys)) =
       length (filter (\<lambda>i. is_resolved (getAuthToken be i)) [0..<length keys])"
    using fetches_enumerate[of be ap 0 keys] by (simp add: backend_calls_enumerate)
  show "backend_calls (loadingFunction be None keys) = []"
    by (simp add: backend_calls_enumerate calls_without_parameters split_def)
qed

subsection \<open>Failures\<close>







text \<open>
  In one batch the outcome at a position is made from the key at that position alone. A
  key whose resolution succeeds keeps its result whatever the other keys do, and a key
  whose resolution fails gets \<^verbatim>\<open>null\<close> when the handler can serialise the error for its
  message; otherwise the handler throws and the key's promise is rejected.
\<close>

lemma outcome_of_each_key:
  assumes "i < length keys" and "j < length keys"
    and "snd (searchProducts be i (keys ! i) ap) = Resolved (Result res)"
    and "snd (searchProducts be j (keys ! j) ap) = Rejected e"
  shows "outcomes (loadingFunction be ap keys) ! i = Resolved (Result res)
    \<and> outcomes (loadingFunction be ap keys) ! j =
        (if serialisable e then Resolved Null else Rejected TypeError)
    \<and> length (outcomes (loadingFunction be ap keys)) = length keys"
  using assms by (simp add: outcomes_nth outcomes_length catch_resolved catch_rejected)


subsection \<open>Cache keys\<close>

text \<open>
  The serialisation can be read back: an escaped character, a quoted string and a
  decimal numeral are recovered from the front of a text, and so are the members of a
  comma-separated sequence up to its closing bracket.
\<close>

lemma hex_val_digit: "d < 16 \<Longrightarrow> hex_val (hex_digit d) = d"
  by (simp add: hex_val_def hex_digit_def)

lemma unescape_escape: "unescape (escape_char c @ r) = Some (c, r)"
proof -
  have u: "unescape ([CHR 0x5C, CHR ''u'', CHR ''0'', CHR ''0'',
         hex_digit (of_char c div 16), hex_digit (of_char c mod 16)] @ r) = Some (c, r)"
    if "(of_char c :: nat) < 32"
  proof -
    from that have "(of_char c :: nat) div 16 < 16" by simp
    then have "hex_val (hex_digit (of_char c div 16)) = of_char c div 16"
      by (rule hex_val_digit)
    moreover have "hex_val (hex_digit (of_char c mod 16)) = of_char c mod 16"
      by (rule hex_val_digit) simp
    ultimately show ?thesis by simp
  qed
  have p: "unescape ([c] @ r) = Some (c, r)" if "c \<noteq> CHR 0x5C"
    using that by (cases r) simp_all
  show ?thesis
    unfolding escape_char_def
    using u p by (simp del: unescape.simps append.simps) (simp)
qed

lemma escape_char_inj:
  assumes "escape_char c @ r = escape_char d @ r'"
  shows "c = d \<and> r = r'"
proof -
  have "unescape (escape_char c @ r) = unescape (escape_char d @ r')"
    using assms by simp
  then show ?thesis by (simp add: unescape_escape)
qed

lemma escape_char_not_quote: "escape_char c @ r \<noteq> CHR 0x22 # r'"
  by (simp add: escape_char_def)

lemma escaped_body_inj:
  "concat (map escape_char s) @ CHR 0x22 # r = concat (map escape_char t) @ CHR 0x22 # r'
   \<Longrightarrow> s = t \<and> r = r'"
proof (induction s arbitrary: t)
  case Nil
  then show ?case
  proof (cases t)
    case Nil
    with Nil.prems show ?thesis by simp
  next
    case (Cons d t')
    with Nil.prems have "escape_char d @ (concat (map escape_char t') @ CHR 0x22 # r') = CHR 0x22 # r"
      by simp
    then show ?thesis using escape_char_not_quote by blast
  qed
next
  case (Cons c s)
  show ?case
  proof (cases t)
    case Nil
    with Cons.prems have "escape_char c @ (concat (map escape_char s) @ CHR 0x22 # r) = CHR 0x22 # r'"
      by simp
    then show ?thesis using escape_char_not_quote by blast
  next
    case (Cons d t')
    with Cons.prems have "escape_char c @ (concat (map escape_char s) @ CHR 0x22 # r)
        = escape_char d @ (concat (map escape_char t') @ CHR 0x22 # r')"
      by simp
    from escape_char_inj[OF this] have "c = d"
      and "concat (map escape_char s) @ CHR 0x22 # r = concat (map escape_char t') @ CHR 0x22 # r'"
      by simp_all
    with Cons.IH[of t'] Cons show ?thesis by simp
  qed
qed

lemma quote_inj: "quote s @ r = quote t @ r' \<Longrightarrow> s = t \<and> r = r'"
  using escaped_body_inj[of s r t r'] by (simp add: quote_def)

declare digits.simps [simp del]

lemma of_char_digit: "d < 10 \<Longrightarrow> (of_char (digit d) :: nat) = 48 + d"
  by (simp add: digit_def)

lemma is_digit_digit: "d < 10 \<Longrightarrow> is_digit (digit d)"
  by (simp add: is_digit_def of_char_digit)

lemma digits_all_digits: "\<forall>c\<in>set (digits n). is_digit c"
proof (induction n rule: digits.induct)
  case (1 n)
  show ?case
  proof (cases "n < 10")
    case True
    then show ?thesis by (subst digits.simps) (simp add: is_digit_digit)
  next
    case False
    with 1 show ?thesis by (subst digits.simps) (simp add: is_digit_digit)
  qed
qed

lemma digits_not_Nil: "digits n \<noteq> []"
  by (subst digits.simps) simp

lemma digits_val_snoc: "digits_val (xs @ [c]) = 10 * digits_val xs + (of_char c - 48)"
  by (simp add: digits_val_def)

lemma digits_val_digits: "digits_val (digits n) = n"
proof (induction n rule: digits.induct)
  case (1 n)
  show ?case
  proof (cases "n < 10")
    case True
    then show ?thesis
      by (subst digits.simps) (simp add: digits_val_def of_char_digit)
  next
    case False
    with 1 have "digits_val (digits (n div 10)) = n div 10" by simp
    with False show ?thesis
      by (subst digits.simps) (simp add: digits_val_snoc of_char_digit)
  qed
qed

lemma digits_inj: "digits a = digits b \<Longrightarrow> a = b"
  by (metis digits_val_digits)

lemma takeWhile_digits:
  assumes "r = [] \<or> \<not> is_digit (hd r)"
  shows "takeWhile is_digit (digits n @ r) = digits n"
proof -
  have "takeWhile is_digit (digits n @ r) = digits n @ takeWhile is_digit r"
    using digits_all_digits by (simp add: takeWhile_append2)
  moreover have "takeWhile is_digit r = []"
    using assms by (cases r) auto
  ultimately show ?thesis by simp
qed

lemma digits_delimited:
  assumes "digits a @ r = digits b @ r'"
    and "r = [] \<or> \<not> is_digit (hd r)" and "r' = [] \<or> \<not> is_digit (hd r')"
  shows "a = b \<and> r = r'"
proof -
  have "takeWhile is_digit (digits a @ r) = takeWhile is_digit (digits b @ r')"
    using assms(1) by simp
  then have "digits a = digits b"
    using assms(2,3) by (simp add: takeWhile_digits)
  with assms(1) show ?thesis by (simp add: digits_inj)
qed

lemma digits_hd_digit: "\<exists>c cs. digits n = c # cs \<and> is_digit c"
  using digits_not_Nil[of n] digits_all_digits[of n] by (cases "digits n") auto

lemma show_int_delimited:
  assumes "show_int a @ r = show_int b @ r'"
    and "r = [] \<or> \<not> is_digit (hd r)" and "r' = [] \<or> \<not> is_digit (hd r')"
  shows "a = b \<and> r = r'"
proof -
  have minus: "\<not> is_digit CHR ''-''" by (simp add: is_digit_def)
  consider "a < 0" "b < 0" | "a < 0" "\<not> b < 0" | "\<not> a < 0" "b < 0" | "\<not> a < 0" "\<not> b < 0"
    by blast
  then show ?thesis
  proof cases
    case 1
    with assms(1) have "digits (nat (- a)) @ r = digits (nat (- b)) @ r'"
      by (simp add: show_int_def)
    from digits_delimited[OF this assms(2,3)] 1 show ?thesis by linarith
  next
    case 2
    obtain c cs where "digits (nat b) = c # cs" "is_digit c"
      using digits_hd_digit by blast
    with 2 assms(1) minus show ?thesis by (simp add: show_int_def)
  next
    case 3
    obtain c cs where "digits (nat a) = c # cs" "is_digit c"
      using digits_hd_digit by blast
    with 3 assms(1) minus show ?thesis by (auto simp: show_int_def)
  next
    case 4
    with assms(1) have "digits (nat a) @ r = digits (nat b) @ r'"
      by (simp add: show_int_def)
    from digits_delimited[OF this assms(2,3)] 4 show ?thesis by linarith
  qed
qed

lemma join_Cons_append:
  "join (x # xs) @ r = x @ (case xs of [] \<Rightarrow> r | y # ys \<Rightarrow> CHR '','' # join xs @ r)"
  by (cases xs) simp_all

lemma join_delimited:
  fixes ser :: "'a \<Rightarrow> string" and T :: char
  assumes start: "\<And>x r r'. ser x @ r \<noteq> T # r'"
    and comma: "T \<noteq> CHR '',''"
    and item: "\<And>x y r r'. ser x @ r = ser y @ r'
        \<Longrightarrow> (\<exists>t. r = CHR '','' # t \<or> r = T # t) \<Longrightarrow> (\<exists>t. r' = CHR '','' # t \<or> r' = T # t)
        \<Longrightarrow> x = y \<and> r = r'"
  shows "join (map ser xs) @ T # r = join (map ser ys) @ T # r' \<Longrightarrow> xs = ys \<and> r = r'"
proof (induction xs arbitrary: ys)
  case Nil
  show ?case
  proof (cases ys)
    case Nil
    with Nil.prems show ?thesis by simp
  next
    case (Cons y ys')
    with Nil.prems have "ser y @ (case map ser ys' of [] \<Rightarrow> T # r'
        | z # zs \<Rightarrow> CHR '','' # join (map ser ys') @ T # r') = T # r"
      by (simp add: join_Cons_append)
    with start show ?thesis by blast
  qed
next
  case (Cons x xs')
  let ?R = "case map ser xs' of [] \<Rightarrow> T # r | z # zs \<Rightarrow> CHR '','' # join (map ser xs') @ T # r"
  show ?case
  proof (cases ys)
    case Nil
    with Cons.prems have "ser x @ ?R = T # r'"
      by (simp add: join_Cons_append)
    with start show ?thesis by blast
  next
    case (Cons y ys')
    let ?R' = "case map ser ys' of [] \<Rightarrow> T # r'
        | z # zs \<Rightarrow> CHR '','' # join (map ser ys') @ T # r'"
    from Cons Cons.prems have eq: "ser x @ ?R = ser y @ ?R'"
      by (simp add: join_Cons_append)
    have f: "\<exists>t. ?R = CHR '','' # t \<or> ?R = T # t"
      by (cases xs') auto
    have f': "\<exists>t. ?R' = CHR '','' # t \<or> ?R' = T # t"
      by (cases ys') auto
    from item[OF eq f f'] have xy: "x = y" and R: "?R = ?R'" by simp_all
    have "xs' = ys' \<and> r = r'"
    proof (cases xs')
      case Nil
      with R comma show ?thesis by (cases ys') auto
    next
      case (Cons a as)
      show ?thesis
      proof (cases ys')
        case Nil
        with R Cons comma show ?thesis by auto
      next
        case (Cons b bs)
        with R \<open>xs' = a # as\<close> have "join (map ser xs') @ T # r = join (map ser ys') @ T # r'"
          by simp
        then show ?thesis by (rule Cons.IH)
      qed
    qed
    with xy Cons show ?thesis by simp
  qed
qed

lemma quote_start: "quote s @ r \<noteq> CHR '']'' # r'"
  by (simp add: quote_def)

lemma string_array_inj:
  "join (map quote xs) @ CHR '']'' # r = join (map quote ys) @ CHR '']'' # r'
   \<Longrightarrow> xs = ys \<and> r = r'"
  by (rule join_delimited[where ser = quote and T = "CHR '']''"])
     (auto simp: quote_start dest: quote_inj)

lemma stringify_condition_inj:
  "stringify_condition c @ r = stringify_condition d @ r' \<Longrightarrow> c = d \<and> r = r'"
proof (cases c; cases d)
  fix s t
  assume "c = Eq s" "d = Eq t" and eq: "stringify_condition c @ r = stringify_condition d @ r'"
  then have "quote s @ (CHR ''}'' # r) = quote t @ (CHR ''}'' # r')" by simp
  from quote_inj[OF this] \<open>c = Eq s\<close> \<open>d = Eq t\<close> show ?thesis by simp
next
  fix xs ys
  assume "c = In xs" "d = In ys" and eq: "stringify_condition c @ r = stringify_condition d @ r'"
  then have "join (map quote xs) @ CHR '']'' # (CHR ''}'' # r)
      = join (map quote ys) @ CHR '']'' # (CHR ''}'' # r')" by simp
  from string_array_inj[OF this] \<open>c = In xs\<close> \<open>d = In ys\<close> show ?thesis by simp
qed simp_all

lemma stringify_filter_field_inj:
  "stringify_filter_field f @ r = stringify_filter_field g @ r' \<Longrightarrow> f = g \<and> r = r'"
  by (cases f; cases g) (auto dest: stringify_condition_inj)

lemma stringify_filter_field_start: "stringify_filter_field f @ r \<noteq> CHR ''}'' # r'"
  by (cases f) simp_all

lemma filter_object_inj:
  "join (map stringify_filter_field fs) @ CHR ''}'' # r
     = join (map stringify_filter_field gs) @ CHR ''}'' # r'
   \<Longrightarrow> fs = gs \<and> r = r'"
  by (rule join_delimited[where ser = stringify_filter_field and T = "CHR ''}''"])
     (auto simp: stringify_filter_field_start dest: stringify_filter_field_inj)

lemma follow_not_digit:
  "(\<exists>t. r = CHR '','' # t \<or> r = CHR ''}'' # t) \<Longrightarrow> r = [] \<or> \<not> is_digit (hd r)"
  by (auto simp: is_digit_def)

lemma stringify_field_start: "stringify_field f @ r \<noteq> CHR ''}'' # r'"
  by (cases f) simp_all

lemma stringify_field_delimited:
  assumes eq: "stringify_field f @ r = stringify_field g @ r'"
    and r: "\<exists>t. r = CHR '','' # t \<or> r = CHR ''}'' # t"
    and r': "\<exists>t. r' = CHR '','' # t \<or> r' = CHR ''}'' # t"
  shows "f = g \<and> r = r'"
proof -
  note nd = follow_not_digit[OF r] follow_not_digit[OF r']
  show ?thesis
  proof (cases f)
    case (Search s)
    with eq show ?thesis by (cases g) (auto dest: quote_inj)
  next
    case (Filter fs)
    show ?thesis
    proof (cases g)
      case (Filter gs)
      with \<open>f = Filter fs\<close> eq
      have "join (map stringify_filter_field fs) @ CHR ''}'' # r
          = join (map stringify_filter_field gs) @ CHR ''}'' # r'" by simp
      from filter_object_inj[OF this] Filter \<open>f = Filter fs\<close> show ?thesis by simp
    qed (use eq \<open>f = Filter fs\<close> in simp_all)
  next
    case (CategoryId n)
    show ?thesis
    proof (cases g)
      case (CategoryId m)
      with \<open>f = CategoryId n\<close> eq have "show_int n @ r = show_int m @ r'" by simp
      from show_int_delimited[OF this nd] CategoryId \<open>f = CategoryId n\<close> show ?thesis by simp
    qed (use eq \<open>f = CategoryId n\<close> in simp_all)
  next
    case (CurrentPage n)
    show ?thesis
    proof (cases g)
      case (CurrentPage m)
      with \<open>f = CurrentPage n\<close> eq have "show_int n @ r = show_int m @ r'" by simp
      from show_int_delimited[OF this nd] CurrentPage \<open>f = CurrentPage n\<close> show ?thesis by simp
    qed (use eq \<open>f = CurrentPage n\<close> in simp_all)
  next
    case (PageSize n)
    show ?thesis
    proof (cases g)
      case (PageSize m)
      with \<open>f = PageSize n\<close> eq have "show_int n @ r = show_int m @ r'" by simp
      from show_int_delimited[OF this nd] PageSize \<open>f = PageSize n\<close> show ?thesis by simp
    qed (use eq \<open>f = PageSize n\<close> in simp_all)
  qed
qed

lemma key_object_inj:
  "join (map stringify_field k1) @ CHR ''}'' # r = join (map stringify_field k2) @ CHR ''}'' # r'
   \<Longrightarrow> k1 = k2 \<and> r = r'"
  by (rule join_delimited[where ser = stringify_field and T = "CHR ''}''"])
     (auto simp: stringify_field_start dest: stringify_field_delimited)

lemma cacheKeyFunction_inj: "cacheKeyFunction k1 = cacheKeyFunction k2 \<Longrightarrow> k1 = k2"
proof -
  assume "cacheKeyFunction k1 = cacheKeyFunction k2"
  then have "join (map stringify_field k1) @ CHR ''}'' # []
      = join (map stringify_field k2) @ CHR ''}'' # []"
    by (simp add: cacheKeyFunction_def)
  from key_object_inj[OF this] show "k1 = k2" by simp
qed

text \<open>
  Claim C8, as stated, has two keys with the same properties and values in a different
  order yield the same cache key. The two sample keys have the same properties and
  values, and their cache keys differ.
\<close>

theorem field_order_changes_cache_key:
  "set demo_key = set demo_key_reordered
   \<and> cacheKeyFunction demo_key \<noteq> cacheKeyFunction demo_key_reordered"
  by (auto simp: demo_key_def demo_key_reordered_def cacheKeyFunction_def)

text \<open>
  Claim C8, amended. Two keys have the same cache key exactly when they have the same
  properties with the same values in the same order, at every level of the key: a
  difference in the order of the properties gives a different cache key.
\<close>

theorem cache_key_identifies_ordered_key:
  "cacheKeyFunction k1 = cacheKeyFunction k2 \<longleftrightarrow> k1 = k2"
  using cacheKeyFunction_inj by blast

subsection \<open>Deduplication in the loader\<close>

lemma register_fst:
  "map fst (register ck key c es) = (if ck \<in> fst ` set es then map fst es else map fst es @ [ck])"
  by (induction ck key c es rule: register.induct) (auto simp: image_iff)

lemma register_callers_set:
  "set (concat (map (\<lambda>(ck, key, cs). cs) (register ck key c es)))
     = insert c (set (concat (map (\<lambda>(ck, key, cs). cs) es)))"
  by (induction ck key c es rule: register.induct) auto

lemma register_callers_distinct:
  "distinct (concat (map (\<lambda>(ck, key, cs). cs) es))
   \<Longrightarrow> c \<notin> set (concat (map (\<lambda>(ck, key, cs). cs) es))
   \<Longrightarrow> distinct (concat (map (\<lambda>(ck, key, cs). cs) (register ck key c es)))"
proof (induction ck key c es rule: register.induct)
  case (1 ck key c)
  then show ?case by simp
next
  case (2 ck key c ck' key' cs es)
  show ?case
  proof (cases "ck' = ck")
    case True
    with 2 show ?thesis by auto
  next
    case False
    with 2 have "distinct (concat (map (\<lambda>(ck, key, cs). cs) (register ck key c es)))"
      by simp
    moreover from 2 have "set cs \<inter> set (concat (map (\<lambda>(ck, key, cs). cs) (register ck key c es))) = {}"
      unfolding register_callers_set by auto
    moreover from 2 have "distinct cs" by simp
    ultimately show ?thesis using False by simp
  qed
qed

lemma register_entries:
  "(ck', key', cs) \<in> set (register ck key c es) \<Longrightarrow>
     (ck' = ck \<and> key' = key \<and> cs = [c] \<and> ck \<notin> fst ` set es)
     \<or> (ck' = ck \<and> (\<exists>cs0. (ck, key', cs0) \<in> set es \<and> cs = cs0 @ [c]))
     \<or> (ck', key', cs) \<in> set es"
  by (induction ck key c es rule: register.induct) (auto split: if_splits)

lemma register_waits:
  "\<exists>key' cs. (ck, key', cs) \<in> set (register ck key c es) \<and> c \<in> set cs"
proof (induction ck key c es rule: register.induct)
  case (1 ck key c)
  then show ?case by simp
next
  case (2 ck key c ck' key' cs es)
  show ?case
  proof (cases "ck' = ck")
    case True
    then have "(ck, key', cs @ [c]) \<in> set (register ck key c ((ck', key', cs) # es))" by simp
    then show ?thesis by fastforce
  next
    case False
    with 2 obtain k' cs' where "(ck, k', cs') \<in> set (register ck key c es)" "c \<in> set cs'"
      by blast
    with False show ?thesis by fastforce
  qed
qed

lemma register_keeps:
  "(ck', key', cs) \<in> set es \<Longrightarrow> c' \<in> set cs \<Longrightarrow>
   \<exists>cs'. (ck', key', cs') \<in> set (register ck key c es) \<and> c' \<in> set cs'"
proof (induction ck key c es rule: register.induct)
  case (1 ck key c)
  then show ?case by simp
next
  case (2 ck key c ck0 key0 cs0 es)
  show ?case
  proof (cases "(ck', key', cs) = (ck0, key0, cs0)")
    case True
    show ?thesis
    proof (cases "ck0 = ck")
      case True
      with \<open>(ck', key', cs) = (ck0, key0, cs0)\<close> 2(3)
      have "(ck', key', cs @ [c]) \<in> set (register ck key c ((ck0, key0, cs0) # es))"
        "c' \<in> set (cs @ [c])" by simp_all
      then show ?thesis by blast
    next
      case False
      with \<open>(ck', key', cs) = (ck0, key0, cs0)\<close> 2(3)
      have "(ck', key', cs) \<in> set (register ck key c ((ck0, key0, cs0) # es))" by simp
      with 2(3) show ?thesis by blast
    qed
  next
    case False
    with 2(2) have m: "(ck', key', cs) \<in> set es" by auto
    show ?thesis
    proof (cases "ck0 = ck")
      case True
      with m have "(ck', key', cs) \<in> set (register ck key c ((ck0, key0, cs0) # es))" by simp
      with 2(3) show ?thesis by blast
    next
      case False
      with 2(1)[OF False m 2(3)] obtain cs' where
        "(ck', key', cs') \<in> set (register ck key c es)" "c' \<in> set cs'" by blast
      with False show ?thesis by fastforce
    qed
  qed
qed

lemma wf_pending_register:
  assumes "wf_pending n es"
  shows "wf_pending (Suc n) (register (cacheKeyFunction key) key n es)"
proof -
  from assms have d: "distinct (map fst es)"
    and e: "\<forall>(ck, key, cs)\<in>set es. ck = cacheKeyFunction key \<and> (\<forall>c\<in>set cs. c < n)"
    and c: "distinct (concat (map (\<lambda>(ck, key, cs). cs) es))"
    by (simp_all add: wf_pending_def)
  from e have "n \<notin> set (concat (map (\<lambda>(ck, key, cs). cs) es))" by fastforce
  with c have c': "distinct (concat (map (\<lambda>(ck, key, cs). cs)
      (register (cacheKeyFunction key) key n es)))"
    by (rule register_callers_distinct)
  from d have d': "distinct (map fst (register (cacheKeyFunction key) key n es))"
    by (auto simp: register_fst)
  have e': "\<forall>(ck, key', cs)\<in>set (register (cacheKeyFunction key) key n es).
      ck = cacheKeyFunction key' \<and> (\<forall>c\<in>set cs. c < Suc n)"
  proof (clarify, intro conjI ballI)
    fix ck key' cs
    assume m: "(ck, key', cs) \<in> set (register (cacheKeyFunction key) key n es)"
    from register_entries[OF m] e show "ck = cacheKeyFunction key'" by fastforce
    fix c assume "c \<in> set cs"
    with register_entries[OF m] e show "c < Suc n" by fastforce
  qed
  from d' e' c' show ?thesis by (simp add: wf_pending_def)
qed

lemma load_all_snoc: "load_all (ks @ [k]) l = load k (load_all ks l)"
  by (simp add: load_all_def)

lemma resolve_batch_other:
  "c \<notin> set (concat (map (\<lambda>(ck, key, cs). cs) es))
   \<Longrightarrow> delivered (resolve_batch es ps l) c = delivered l c"
  by (induction es ps l rule: resolve_batch.induct) auto

lemma resolve_batch_delivered:
  assumes "distinct (concat (map (\<lambda>(ck, key, cs). cs) es))"
    and "j < length es" and "j < length ps"
    and "es ! j = (ck, key, cs)" and "c \<in> set cs"
  shows "delivered (resolve_batch es ps l) c = Some (settle (ps ! j))"
  using assms
proof (induction es ps l arbitrary: j rule: resolve_batch.induct)
  case (1 ck0 key0 cs0 es p ps l)
  let ?l = "l\<lparr>cache := (cache l)(ck0 \<mapsto> settle p),
          delivered := (\<lambda>c. if c \<in> set cs0 then Some (settle p) else delivered l c)\<rparr>"
  show ?case
  proof (cases j)
    case 0
    with 1 have "c \<in> set cs0" by simp
    moreover from 1(2) have "set cs0 \<inter> set (concat (map (\<lambda>(ck, key, cs). cs) es)) = {}"
      by simp
    ultimately have "c \<notin> set (concat (map (\<lambda>(ck, key, cs). cs) es))" by blast
    with \<open>c \<in> set cs0\<close> show ?thesis using 0 by (simp add: resolve_batch_other)
  next
    case (Suc j')
    with 1 have "delivered (resolve_batch es ps ?l) c = Some (settle (ps ! j'))"
      by (intro 1(1)) simp_all
    with Suc show ?thesis by simp
  qed
qed simp_all

lemma distinct_filter_one:
  "distinct xs \<Longrightarrow> x \<in> set xs \<Longrightarrow> length (filter (\<lambda>y. y = x) xs) = 1"
  by (induction xs) (auto simp: filter_empty_conv)

lemma wf_pending_cache_keys:
  "wf_pending n es \<Longrightarrow> map cacheKeyFunction (map (\<lambda>(ck, key, cs). key) es) = map fst es"
  by (induction es) (auto simp: wf_pending_def)

lemma flush_delivered:
  "delivered (flush be ap l) =
     delivered (resolve_batch (pending l) (outcomes (loadingFunction be ap (batch_keys l))) l)"
  by (simp add: flush_def)

lemma wf_pending_mono: "wf_pending n es \<Longrightarrow> n \<le> m \<Longrightarrow> wf_pending m es"
  unfolding wf_pending_def by fastforce

lemma load_cases:
  "load key l =
     (case cache l (cacheKeyFunction key) of
        Some v \<Rightarrow> l\<lparr>delivered := (delivered l)(calls l \<mapsto> v), calls := Suc (calls l)\<rparr>
      | None \<Rightarrow> l\<lparr>pending := register (cacheKeyFunction key) key (calls l) (pending l),
                   calls := Suc (calls l)\<rparr>)"
  by (simp add: load_def Let_def)

lemma load_cache: "cache (load key l) = cache l"
  by (simp add: load_cases split: option.splits)

lemma load_calls: "calls (load key l) = Suc (calls l)"
  by (simp add: load_cases split: option.splits)

lemma load_delivered_other: "c \<noteq> calls l \<Longrightarrow> delivered (load key l) c = delivered l c"
  by (simp add: load_cases split: option.splits)

lemma load_uncached_state:
  "cache l (cacheKeyFunction key) = None \<Longrightarrow>
   pending (load key l) = register (cacheKeyFunction key) key (calls l) (pending l)
   \<and> delivered (load key l) = delivered l"
  by (simp add: load_cases)

lemma load_pending_keeps:
  assumes "(ck', key', cs) \<in> set (pending l)" and "c' \<in> set cs"
  shows "\<exists>cs'. (ck', key', cs') \<in> set (pending (load key l)) \<and> c' \<in> set cs'"
proof (cases "cache l (cacheKeyFunction key)")
  case None
  with register_keeps[OF assms, of "cacheKeyFunction key" key "calls l"] show ?thesis
    by (simp add: load_cases)
next
  case (Some v)
  with assms show ?thesis by (auto simp: load_cases)
qed

lemma load_inv:
  assumes "loader_inv l"
  shows "loader_inv (load key l)"
proof (cases "cache l (cacheKeyFunction key)")
  case None
  from assms have "wf_pending (calls l) (pending l)" by (simp add: loader_inv_def)
  from wf_pending_register[OF this, of key] None assms show ?thesis
    by (simp add: loader_inv_def load_cases)
next
  case (Some v)
  from assms have "wf_pending (calls l) (pending l)" by (simp add: loader_inv_def)
  then have "wf_pending (Suc (calls l)) (pending l)" by (rule wf_pending_mono) simp
  with Some assms show ?thesis by (simp add: loader_inv_def load_cases)
qed

lemma resolve_batch_calls: "calls (resolve_batch es ps l) = calls l"
  by (induction es ps l rule: resolve_batch.induct) simp_all

lemma flush_inv:
  assumes "loader_inv l"
  shows "loader_inv (flush be ap l)"
proof -
  from assms have wf: "wf_pending (calls l) (pending l)"
    and d: "\<forall>c. calls l \<le> c \<longrightarrow> delivered l c = None"
    by (simp_all add: loader_inv_def)
  have "delivered (flush be ap l) c = None" if "calls l \<le> c" for c
  proof -
    from wf that have "c \<notin> set (concat (map (\<lambda>(ck, key, cs). cs) (pending l)))"
      unfolding wf_pending_def by fastforce
    then have "delivered (resolve_batch (pending l)
        (outcomes (loadingFunction be ap (batch_keys l))) l) c = delivered l c"
      by (rule resolve_batch_other)
    with d that show ?thesis by (simp add: flush_delivered)
  qed
  moreover have "calls (flush be ap l) = calls l"
    by (simp add: flush_def resolve_batch_calls)
  moreover have "pending (flush be ap l) = []" by (simp add: flush_def)
  ultimately show ?thesis by (simp add: loader_inv_def wf_pending_def)
qed

lemma reachable_inv: "reachable l \<Longrightarrow> loader_inv l"
proof (induction rule: reachable.induct)
  case fresh
  show ?case by (simp add: loader_inv_def new_loader_def wf_pending_def)
next
  case (loaded l key)
  then show ?case by (simp add: load_inv)
next
  case (flushed l be actionParameters)
  then show ?case by (simp add: flush_inv)
qed

lemma load_all_queue:
  assumes "loader_inv l"
  shows "cache (load_all ks l) = cache l
    \<and> calls (load_all ks l) = calls l + length ks
    \<and> loader_inv (load_all ks l)
    \<and> (\<forall>i<length ks. cache l (cacheKeyFunction (ks ! i)) = None \<longrightarrow>
          (\<exists>key' cs. (cacheKeyFunction (ks ! i), key', cs) \<in> set (pending (load_all ks l))
             \<and> calls l + i \<in> set cs)
          \<and> delivered (load_all ks l) (calls l + i) = None)"
proof (induction ks rule: rev_induct)
  case Nil
  from assms show ?case by (simp add: load_all_def)
next
  case (snoc k ks)
  let ?l = "load_all ks l"
  let ?l' = "load k ?l"
  from snoc have c: "cache ?l = cache l"
    and n: "calls ?l = calls l + length ks"
    and inv: "loader_inv ?l"
    and w: "\<forall>i<length ks. cache l (cacheKeyFunction (ks ! i)) = None \<longrightarrow>
          (\<exists>key' cs. (cacheKeyFunction (ks ! i), key', cs) \<in> set (pending ?l)
             \<and> calls l + i \<in> set cs)
          \<and> delivered ?l (calls l + i) = None"
    by blast+
  have "(\<exists>key' cs. (cacheKeyFunction ((ks @ [k]) ! i), key', cs) \<in> set (pending ?l')
          \<and> calls l + i \<in> set cs) \<and> delivered ?l' (calls l + i) = None"
    if i: "i < length (ks @ [k])" and u: "cache l (cacheKeyFunction ((ks @ [k]) ! i)) = None" for i
  proof (cases "i < length ks")
    case True
    with u w obtain key' cs where m: "(cacheKeyFunction (ks ! i), key', cs) \<in> set (pending ?l)"
      "calls l + i \<in> set cs" and dn: "delivered ?l (calls l + i) = None"
      by (auto simp: nth_append)
    from load_pending_keeps[OF m, of k] obtain cs' where
      "(cacheKeyFunction (ks ! i), key', cs') \<in> set (pending ?l')" "calls l + i \<in> set cs'"
      by blast
    moreover from True n have "calls l + i \<noteq> calls ?l" by simp
    then have "delivered ?l' (calls l + i) = delivered ?l (calls l + i)"
      by (rule load_delivered_other)
    ultimately show ?thesis using True dn by (auto simp: nth_append)
  next
    case False
    with i have il: "i = length ks" by simp
    with u c have un: "cache ?l (cacheKeyFunction k) = None" by simp
    from inv n have "delivered ?l (calls l + length ks) = None"
      by (simp add: loader_inv_def)
    with load_uncached_state[OF un] register_waits[of "cacheKeyFunction k" k "calls ?l" "pending ?l"]
      n il show ?thesis by simp
  qed
  then show ?case
    using c n inv by (simp add: load_all_snoc load_cache load_calls load_inv)
qed

text \<open>
  After any sequence of loads, a key that has no cache entry has one entry in the batch,
  and every call that loaded it waits there until the flush.
\<close>

lemma queued_loads_share_entry:
  assumes "loader_inv l" and "cache l (cacheKeyFunction k) = None" and "k \<in> set ks"
  shows "length (filter (\<lambda>k'. cacheKeyFunction k' = cacheKeyFunction k)
            (batch_keys (load_all ks l))) = 1
    \<and> (\<exists>j<length (batch_keys (load_all ks l)).
          batch_keys (load_all ks l) ! j = k
          \<and> (\<forall>i<length ks. ks ! i = k \<longrightarrow>
                delivered (load_all ks l) (calls l + i) = None
              \<and> delivered (flush be ap (load_all ks l)) (calls l + i) =
                  Some (settle (outcomes (loadingFunction be ap
                    (batch_keys (load_all ks l))) ! j))))"
proof -
  let ?l = "load_all ks l"
  let ?outs = "outcomes (loadingFunction be ap (batch_keys ?l))"
  from load_all_queue[OF assms(1), of ks]
  have inv: "loader_inv ?l"
    and w: "\<forall>i<length ks. cache l (cacheKeyFunction (ks ! i)) = None \<longrightarrow>
          (\<exists>key' cs. (cacheKeyFunction (ks ! i), key', cs) \<in> set (pending ?l)
             \<and> calls l + i \<in> set cs)
          \<and> delivered ?l (calls l + i) = None"
    by blast+
  from inv have wf: "wf_pending (calls ?l) (pending ?l)" by (simp add: loader_inv_def)
  from wf have d: "distinct (map fst (pending ?l))"
    and e: "\<forall>(ck, key, cs)\<in>set (pending ?l). ck = cacheKeyFunction key"
    and dc: "distinct (concat (map (\<lambda>(ck, key, cs). cs) (pending ?l)))"
    by (auto simp: wf_pending_def)
  have waits: "(\<exists>cs. (cacheKeyFunction k, k, cs) \<in> set (pending ?l) \<and> calls l + i \<in> set cs)
      \<and> delivered ?l (calls l + i) = None"
    if "i < length ks" "ks ! i = k" for i
  proof -
    from w that assms(2) obtain key' cs
      where m: "(cacheKeyFunction k, key', cs) \<in> set (pending ?l)"
      and i: "calls l + i \<in> set cs" and dn: "delivered ?l (calls l + i) = None" by blast
    from e m have "cacheKeyFunction k = cacheKeyFunction key'" by auto
    then have "key' = k" by (simp add: cacheKeyFunction_inj)
    with m i dn show ?thesis by blast
  qed
  from assms(3) obtain i0 where i0: "i0 < length ks" "ks ! i0 = k"
    by (auto simp: in_set_conv_nth)
  from waits[OF i0] obtain cs0 where m0: "(cacheKeyFunction k, k, cs0) \<in> set (pending ?l)"
    by blast
  then obtain j where j: "j < length (pending ?l)" "pending ?l ! j = (cacheKeyFunction k, k, cs0)"
    by (auto simp: in_set_conv_nth)
  have len: "length (batch_keys ?l) = length (pending ?l)" by (simp add: batch_keys_def)
  have bj: "batch_keys ?l ! j = k" using j by (simp add: batch_keys_def)
  have del: "delivered ?l (calls l + i) = None
      \<and> delivered (flush be ap ?l) (calls l + i) = Some (settle (?outs ! j))"
    if "i < length ks" "ks ! i = k" for i
  proof -
    from waits[OF that] obtain cs where m: "(cacheKeyFunction k, k, cs) \<in> set (pending ?l)"
      and i: "calls l + i \<in> set cs" and dn: "delivered ?l (calls l + i) = None" by blast
    from d m m0 have "(k, cs) = (k, cs0)" by (rule eq_key_imp_eq_value)
    with i have "calls l + i \<in> set cs0" by simp
    moreover have "j < length ?outs" using j len by (simp add: outcomes_length)
    ultimately have "delivered (resolve_batch (pending ?l) ?outs ?l) (calls l + i)
        = Some (settle (?outs ! j))"
      using dc j by (intro resolve_batch_delivered) simp_all
    then have "delivered (flush be ap ?l) (calls l + i) = Some (settle (?outs ! j))"
      by (simp add: flush_delivered)
    with dn show ?thesis by simp
  qed
  have ck: "map cacheKeyFunction (batch_keys ?l) = map fst (pending ?l)"
    using wf_pending_cache_keys[OF wf] by (simp add: batch_keys_def)
  have "cacheKeyFunction k \<in> set (map fst (pending ?l))"
    using m0 by force
  with d have "length (filter (\<lambda>y. y = cacheKeyFunction k) (map fst (pending ?l))) = 1"
    by (rule distinct_filter_one)
  then have "length (filter (\<lambda>y. y = cacheKeyFunction k)
      (map cacheKeyFunction (batch_keys ?l))) = 1"
    by (simp only: ck)
  then have one: "length (filter (\<lambda>k'. cacheKeyFunction k' = cacheKeyFunction k) (batch_keys ?l)) = 1"
    by (simp add: filter_map comp_def)
  from j len bj del have "\<exists>j<length (batch_keys ?l). batch_keys ?l ! j = k
          \<and> (\<forall>i<length ks. ks ! i = k \<longrightarrow>
                delivered ?l (calls l + i) = None
              \<and> delivered (flush be ap ?l) (calls l + i) = Some (settle (?outs ! j)))"
    by (intro exI[of _ j]) simp
  with one show ?thesis by blast
qed

text \<open>
  Claim C2. Let a loader be in any state that \<^verbatim>\<open>load\<close> calls and flushes lead to, let any
  sequence of \<^verbatim>\<open>load\<close> calls be issued before the batch flushes, and let \<open>k\<close> be one of the
  keys loaded, with no cache entry yet. The batch handed to the Key Resolver holds exactly
  one key with the cache key of \<open>k\<close>, at some position \<open>j\<close>, and it is \<open>k\<close>. Every call that
  loaded \<open>k\<close> is pending before the flush and receives, at the flush, the one outcome the
  resolver produced at position \<open>j\<close>.
\<close>

theorem concurrent_loads_share_one_entry:
  assumes "reachable l" and "cache l (cacheKeyFunction k) = None" and "k \<in> set ks"
  shows "length (filter (\<lambda>k'. cacheKeyFunction k' = cacheKeyFunction k)
            (batch_keys (load_all ks l))) = 1
    \<and> (\<exists>j<length (batch_keys (load_all ks l)).
          batch_keys (load_all ks l) ! j = k
          \<and> (\<forall>i<length ks. ks ! i = k \<longrightarrow>
                delivered (load_all ks l) (calls l + i) = None
              \<and> delivered (flush be ap (load_all ks l)) (calls l + i) =
                  Some (settle (outcomes (loadingFunction be ap
                    (batch_keys (load_all ks l))) ! j))))"
  using reachable_inv[OF assms(1)] assms(2,3) by (rule queued_loads_share_entry)

theorem concurrent_loads_share_one_entry_witness:
  "length (filter (\<lambda>k'. cacheKeyFunction k' = cacheKeyFunction demo_key)
      (batch_keys (load_all [demo_key, [CurrentPage 0], demo_key] new_loader))) = 1
   \<and> delivered (flush demo_backend (Some demo_parameters)
        (load_all [demo_key, [CurrentPage 0], demo_key] new_loader)) 0
     = delivered (flush demo_backend (Some demo_parameters)
        (load_all [demo_key, [CurrentPage 0], demo_key] new_loader)) 2
   \<and> delivered (flush demo_backend (Some demo_parameters)
        (load_all [demo_key, [CurrentPage 0], demo_key] new_loader)) 0 \<noteq> None"
proof -
  let ?ks = "[demo_key, [CurrentPage 0], demo_key]"
  have m: "demo_key \<in> set ?ks" by simp
  have u: "cache new_loader (cacheKeyFunction demo_key) = None" by (simp add: new_loader_def)
  have z: "calls new_loader = 0" by (simp add: new_loader_def)
  from concurrent_loads_share_one_entry[OF reachable.fresh u m, of demo_backend "Some demo_parameters"]
  obtain j where one: "length (filter (\<lambda>k'. cacheKeyFunction k' = cacheKeyFunction demo_key)
      (batch_keys (load_all ?ks new_loader))) = 1"
    and all: "\<forall>i<length ?ks. ?ks ! i = demo_key \<longrightarrow>
        delivered (flush demo_backend (Some demo_parameters) (load_all ?ks new_loader))
            (calls new_loader + i) =
          Some (settle (outcomes (loadingFunction demo_backend (Some demo_parameters)
            (batch_keys (load_all ?ks new_loader))) ! j))"
    by blast
  from all z have "delivered (flush demo_backend (Some demo_parameters) (load_all ?ks new_loader)) 0 =
          Some (settle (outcomes (loadingFunction demo_backend (Some demo_parameters)
            (batch_keys (load_all ?ks new_loader))) ! j))"
    by force
  moreover from all z have "delivered (flush demo_backend (Some demo_parameters) (load_all ?ks new_loader)) 2 =
          Some (settle (outcomes (loadingFunction demo_backend (Some demo_parameters)
            (batch_keys (load_all ?ks new_loader))) ! j))"
    by force
  ultimately show ?thesis using one by simp
qed

end
